theory Spec2Isabelle
  imports Main "HOL-Library.Sublist" "HOL-Library.Char_ord" "HOL-Library.List_Lexorder"
begin

section \<open>Strings (Go package strings, byte strings)\<close>

text \<open>
  A Go string is a sequence of bytes, modelled as \<^typ>\<open>string\<close>.
  \<open>strings.HasPrefix\<close> is \<^const>\<open>prefix\<close> with the arguments swapped.
\<close>

definition HasPrefix :: "string \<Rightarrow> string \<Rightarrow> bool" where
  "HasPrefix s pre = prefix pre s"

text \<open>\<open>strings.Contains s substr\<close>: \<open>substr\<close> occurs in \<open>s\<close> as a contiguous block.\<close>

fun Contains :: "string \<Rightarrow> string \<Rightarrow> bool" where
  "Contains [] sub = (sub = [])"
| "Contains (c # cs) sub = (prefix sub (c # cs) \<or> Contains cs sub)"

text \<open>
  \<open>strings.ToLower\<close> maps every letter of Unicode to its lower case. Its tables are not
  part of the program, so the function is a parameter: the field \<open>strings_ToLower\<close> of
  the record \<open>os\<close> below.
\<close>

text \<open>
  \<open>strings.TrimSpace\<close> removes leading and trailing Unicode white space. The white-space
  code points are listed by their UTF-8 encodings.
\<close>

definition white_space :: "string list" where
  "white_space =
    [[CHR 0x09], [CHR 0x0A], [CHR 0x0B], [CHR 0x0C], [CHR 0x0D], [CHR 0x20],
     [CHR 0xC2, CHR 0x85], [CHR 0xC2, CHR 0xA0],
     [CHR 0xE1, CHR 0x9A, CHR 0x80],
     [CHR 0xE2, CHR 0x80, CHR 0x80], [CHR 0xE2, CHR 0x80, CHR 0x81],
     [CHR 0xE2, CHR 0x80, CHR 0x82], [CHR 0xE2, CHR 0x80, CHR 0x83],
     [CHR 0xE2, CHR 0x80, CHR 0x84], [CHR 0xE2, CHR 0x80, CHR 0x85],
     [CHR 0xE2, CHR 0x80, CHR 0x86], [CHR 0xE2, CHR 0x80, CHR 0x87],
     [CHR 0xE2, CHR 0x80, CHR 0x88], [CHR 0xE2, CHR 0x80, CHR 0x89],
     [CHR 0xE2, CHR 0x80, CHR 0x8A],
     [CHR 0xE2, CHR 0x80, CHR 0xA8], [CHR 0xE2, CHR 0x80, CHR 0xA9],
     [CHR 0xE2, CHR 0x80, CHR 0xAF], [CHR 0xE2, CHR 0x81, CHR 0x9F],
     [CHR 0xE3, CHR 0x80, CHR 0x80]]"

definition leading_space :: "string \<Rightarrow> nat" where
  "leading_space s = (case filter (\<lambda>w. prefix w s) white_space of [] \<Rightarrow> 0 | w # _ \<Rightarrow> length w)"

definition trailing_space :: "string \<Rightarrow> nat" where
  "trailing_space s = (case filter (\<lambda>w. suffix w s) white_space of [] \<Rightarrow> 0 | w # _ \<Rightarrow> length w)"

lemma leading_space_nonempty: "0 < leading_space s \<Longrightarrow> length s - leading_space s < length s"
  by (cases s) (auto simp: leading_space_def white_space_def)

lemma trailing_space_nonempty: "0 < trailing_space s \<Longrightarrow> length s - trailing_space s < length s"
  by (cases s) (auto simp: trailing_space_def white_space_def)

function TrimLeft :: "string \<Rightarrow> string" where
  "TrimLeft s = (if leading_space s = 0 then s else TrimLeft (drop (leading_space s) s))"
  by pat_completeness auto
termination
  by (relation "measure length") (auto intro: leading_space_nonempty)

function TrimRight :: "string \<Rightarrow> string" where
  "TrimRight s = (if trailing_space s = 0 then s else TrimRight (take (length s - trailing_space s) s))"
  by pat_completeness auto
termination
  by (relation "measure length") (auto intro: trailing_space_nonempty)

declare TrimLeft.simps [simp del] TrimRight.simps [simp del]

definition TrimSpace :: "string \<Rightarrow> string" where
  "TrimSpace s = TrimRight (TrimLeft s)"


section \<open>Lexical path functions (Go package path/filepath, Unix)\<close>

text \<open>
  The separator is \<open>/\<close> and there are no volume names. \<open>splitSlash\<close> cuts a string
  at every separator and keeps the empty pieces, so \<open>/a//b\<close> gives four pieces.
\<close>

definition Separator :: char where
  "Separator = CHR ''/''"

fun splitSlash :: "string \<Rightarrow> string list" where
  "splitSlash [] = [[]]"
| "splitSlash (c # cs) =
     (if c = Separator then [] # splitSlash cs
      else (case splitSlash cs of [] \<Rightarrow> [[c]] | x # xs \<Rightarrow> (c # x) # xs))"

text \<open>\<open>joinSlash\<close> is \<open>strings.Join(elems, "/")\<close>.\<close>

fun joinSlash :: "string list \<Rightarrow> string" where
  "joinSlash [] = []"
| "joinSlash [x] = x"
| "joinSlash (x # y # ys) = x @ Separator # joinSlash (y # ys)"

definition IsAbs :: "string \<Rightarrow> bool" where
  "IsAbs path = HasPrefix path [Separator]"

text \<open>
  \<open>filepath.Clean\<close>: empty and \<open>.\<close> elements are dropped; a \<open>..\<close> element removes the
  element before it when there is one that is not itself \<open>..\<close>, is dropped at the root of
  a rooted path, and is kept at the front of a relative path. The empty result is \<open>.\<close>.
\<close>

definition cleanStep :: "bool \<Rightarrow> string list \<Rightarrow> string \<Rightarrow> string list" where
  "cleanStep rooted out e =
     (if e = [] \<or> e = ''.'' then out
      else if e = ''..'' then
        (if out \<noteq> [] \<and> last out \<noteq> ''..'' then butlast out
         else if rooted then out
         else out @ [''..''])
      else out @ [e])"

definition Clean :: "string \<Rightarrow> string" where
  "Clean path =
     (if path = [] then ''.''
      else let rooted = IsAbs path;
               out = foldl (cleanStep rooted) [] (splitSlash path)
           in if rooted then Separator # joinSlash out
              else if out = [] then ''.''
              else joinSlash out)"

text \<open>\<open>filepath.Join\<close>: leading empty elements are ignored, the rest is joined and cleaned.\<close>

definition Join :: "string list \<Rightarrow> string" where
  "Join elem =
     (case dropWhile (\<lambda>e. e = []) elem of
        [] \<Rightarrow> []
      | es \<Rightarrow> Clean (joinSlash es))"

text \<open>\<open>filepath.Dir\<close>: everything up to and including the last separator, cleaned.\<close>

definition Dir :: "string \<Rightarrow> string" where
  "Dir path = Clean (rev (dropWhile (\<lambda>c. c \<noteq> Separator) (rev path)))"

text \<open>\<open>filepath.Base\<close>: the last element, after trailing separators are stripped.\<close>

definition Base :: "string \<Rightarrow> string" where
  "Base path =
     (if path = [] then ''.''
      else let stripped = dropWhile (\<lambda>c. c = Separator) (rev path);
               name = rev (takeWhile (\<lambda>c. c \<noteq> Separator) stripped)
           in if name = [] then [Separator] else name)"

text \<open>
  \<open>filepath.Rel\<close>. Both paths are cleaned; the elements they share at the front are
  skipped; every element left of the base becomes one \<open>..\<close>. The result is an error
  (\<open>None\<close>) when exactly one of the paths is rooted, or when the first differing
  element of the base is \<open>..\<close>. Whenever an element of the base is left, the result is
  an error or starts with a \<open>..\<close> element.
\<close>

definition elements :: "string \<Rightarrow> string list" where
  "elements path = filter (\<lambda>e. e \<noteq> []) (splitSlash path)"

fun skipCommon :: "string list \<Rightarrow> string list \<Rightarrow> string list \<times> string list" where
  "skipCommon (b # bs) (t # ts) = (if b = t then skipCommon bs ts else (b # bs, t # ts))"
| "skipCommon bs ts = (bs, ts)"

definition Rel :: "string \<Rightarrow> string \<Rightarrow> string option" where
  "Rel basepath targpath =
     (let base = Clean basepath; targ = Clean targpath
      in if targ = base then Some ''.''
         else let base' = (if base = ''.'' then [] else base)
              in if IsAbs base' \<noteq> IsAbs targ then None
                 else (case skipCommon (elements base') (elements targ) of
                         (b # bs, t # ts) \<Rightarrow>
                           if b = ''..'' then None
                           else Some (joinSlash (replicate (length (b # bs)) ''..'' @ t # ts))
                       | (b # bs, []) \<Rightarrow> Some (joinSlash (replicate (length (b # bs)) ''..''))
                       | ([], ts) \<Rightarrow> Some (joinSlash ts)))"

section \<open>The file system and the operating system\<close>

text \<open>
  A file system is the list of entries of the root directory \<open>/\<close>; a directory holds its
  own entries. \<open>Lstat\<close> looks up the element list of an absolute path without following a
  symbolic link at the end. Permissions are not modelled.
\<close>

datatype node = File | Directory "(string \<times> node) list" | Symlink string

type_synonym filesystem = "(string \<times> node) list"

fun lookup :: "node \<Rightarrow> string list \<Rightarrow> node option" where
  "lookup n [] = Some n"
| "lookup (Directory entries) (x # xs) =
     (case map_of entries x of None \<Rightarrow> None | Some child \<Rightarrow> lookup child xs)"
| "lookup File (x # xs) = None"
| "lookup (Symlink link) (x # xs) = None"

definition Lstat :: "filesystem \<Rightarrow> string list \<Rightarrow> node option" where
  "Lstat fs p = lookup (Directory fs) p"

text \<open>
  \<open>filepath.EvalSymlinks\<close> walks the path one element at a time. \<open>dest\<close> holds the
  elements resolved so far; every new element is looked up with \<open>Lstat\<close>; a symbolic link
  is replaced by its target, which restarts at the root when the target is absolute.
  More than 255 links are an error, as is a missing element or a file that is followed
  by further elements.
\<close>

function walkSymlinks :: "filesystem \<Rightarrow> nat \<Rightarrow> string list \<Rightarrow> string list \<Rightarrow> string list option" where
  "walkSymlinks fs linksWalked [] dest = Some dest"
| "walkSymlinks fs linksWalked (e # rest) dest =
     (if e = [] \<or> e = ''.'' then walkSymlinks fs linksWalked rest dest
      else if e = ''..'' then walkSymlinks fs linksWalked rest (butlast dest)
      else (case Lstat fs (dest @ [e]) of
              None \<Rightarrow> None
            | Some File \<Rightarrow> if rest \<noteq> [] then None else Some (dest @ [e])
            | Some (Directory entries) \<Rightarrow> walkSymlinks fs linksWalked rest (dest @ [e])
            | Some (Symlink link) \<Rightarrow>
                if 255 \<le> linksWalked then None
                else walkSymlinks fs (Suc linksWalked) (splitSlash link @ rest)
                       (if IsAbs link then [] else dest)))"
  by pat_completeness auto
termination
  by (relation "measures [\<lambda>(fs, n, p, d). 255 - n, \<lambda>(fs, n, p, d). length p]") auto

declare walkSymlinks.simps [simp del]

text \<open>
  \<open>EvalSymlinks\<close> is only ever applied to the result of \<open>Abs\<close>, an absolute path; a
  relative path, which Go would resolve against the working directory, is an error here.
\<close>

definition EvalSymlinks :: "filesystem \<Rightarrow> string \<Rightarrow> string option" where
  "EvalSymlinks fs path =
     (if IsAbs path
      then map_option (\<lambda>dest. Separator # joinSlash dest) (walkSymlinks fs 0 (splitSlash path) [])
      else None)"

text \<open>
  What the program asks of the operating system and the library besides symbolic-link
  resolution is a parameter: the working directory (the element list of an absolute
  path, or an error text), \<open>filepath.Glob\<close> (\<open>None\<close> is \<open>ErrBadPattern\<close>), reading,
  writing and listing (an error text on failure), the HTTP fetch together with JSON
  decoding, and \<open>strings.ToLower\<close>. \<open>any\<close> is a value of Go's \<open>any\<close> as it occurs in
  tool arguments and results.
\<close>

datatype any = AnyNil | AnyBool bool | AnyString string | AnyNumber int
  | AnyList "any list" | AnyMap "(string \<times> any) list"

record os =
  os_Getwd :: "string + string list"
  os_Glob :: "filesystem \<Rightarrow> string \<Rightarrow> string list option"
  os_ReadFile :: "filesystem \<Rightarrow> string \<Rightarrow> string + string"
  os_WriteFile :: "filesystem \<Rightarrow> string \<Rightarrow> string \<Rightarrow> string option \<times> filesystem"
  os_ReadDir :: "filesystem \<Rightarrow> string \<Rightarrow> string + (string \<times> bool) list"
  http_Get :: "string \<Rightarrow> string + string"
  json_Decode :: "string \<Rightarrow> string + (string \<times> any) list option"
  strings_ToLower :: "string \<Rightarrow> string"

text \<open>\<open>filepath.Abs\<close>.\<close>

definition Abs :: "os \<Rightarrow> string \<Rightarrow> string + string" where
  "Abs sys path =
     (if IsAbs path then Inr (Clean path)
      else (case os_Getwd sys of
              Inl err \<Rightarrow> Inl err
            | Inr wd \<Rightarrow> Inr (Join [Separator # joinSlash wd, path])))"

section \<open>sandbox.go\<close>

datatype PathAccess = AccessReadFile | AccessWriteFile | AccessListDir

record PathSandbox =
  Root :: string

record SandboxError =
  Code :: string
  Message :: string
  Suggestions :: "string list"

definition NewPathSandbox :: "os \<Rightarrow> filesystem \<Rightarrow> string \<Rightarrow> string + PathSandbox" where
  "NewPathSandbox sys fs root =
     (case Abs sys root of
        Inl err \<Rightarrow> Inl (''failed to resolve root: '' @ err)
      | Inr rootAbs \<Rightarrow>
          (case EvalSymlinks fs rootAbs of
             None \<Rightarrow> Inl ''failed to evaluate root symlinks''
           | Some rootReal \<Rightarrow> Inr \<lparr>Root = rootReal\<rparr>))"

text \<open>\<open>formatSuggestions\<close>: at most three names, each wrapped in a question.\<close>

definition formatSuggestions :: "string list \<Rightarrow> string list" where
  "formatSuggestions names =
     map (\<lambda>name. ''Did you mean '' @ [CHR 0x27] @ name @ [CHR 0x27] @ ''?'') (take 3 names)"

text \<open>
  The two loops of \<open>suggestFiles\<close>. Each gives \<open>Inl\<close> of the matches when the third
  match has been found (the \<open>return\<close> inside the loop) and \<open>Inr\<close> of the matches so far
  when the names are used up.
\<close>

fun prefixLoop :: "os \<Rightarrow> string \<Rightarrow> string list \<Rightarrow> string list \<Rightarrow> string list + string list" where
  "prefixLoop sys baseName [] matches = Inr matches"
| "prefixLoop sys baseName (name # names) matches =
     (if HasPrefix (strings_ToLower sys name) (strings_ToLower sys baseName)
      then (if 3 \<le> length (matches @ [name]) then Inl (matches @ [name])
            else prefixLoop sys baseName names (matches @ [name]))
      else prefixLoop sys baseName names matches)"

fun substringLoop :: "os \<Rightarrow> string \<Rightarrow> string list \<Rightarrow> string list \<Rightarrow> string list + string list" where
  "substringLoop sys baseName [] matches = Inr matches"
| "substringLoop sys baseName (name # names) matches =
     (if Contains (strings_ToLower sys name) (strings_ToLower sys baseName) \<and> name \<notin> set matches
      then (if 3 \<le> length (matches @ [name]) then Inl (matches @ [name])
            else substringLoop sys baseName names (matches @ [name]))
      else substringLoop sys baseName names matches)"

definition suggestFiles :: "os \<Rightarrow> filesystem \<Rightarrow> string \<Rightarrow> string list" where
  "suggestFiles sys fs path =
     (let parentDir = Dir path; baseName = Base path
      in case os_Glob sys fs (Join [parentDir, ''*'']) of
           None \<Rightarrow> []
         | Some entries \<Rightarrow>
             (let names = map Base entries
              in case prefixLoop sys baseName names [] of
                   Inl matches \<Rightarrow> formatSuggestions matches
                 | Inr matches \<Rightarrow>
                     (case substringLoop sys baseName names matches of
                        Inl matches' \<Rightarrow> formatSuggestions matches'
                      | Inr matches' \<Rightarrow>
                          if 0 < length matches' then formatSuggestions matches' else [])))"

text \<open>Step 4 of \<open>Resolve\<close>, the switch on the access kind: the real path of the candidate.\<close>

definition symlinkProtection ::
  "os \<Rightarrow> filesystem \<Rightarrow> string \<Rightarrow> string \<Rightarrow> PathAccess \<Rightarrow> SandboxError + string" where
  "symlinkProtection sys fs userPath candidateAbs access =
     (if access = AccessReadFile \<or> access = AccessListDir then
        (case EvalSymlinks fs candidateAbs of
           None \<Rightarrow>
             Inl \<lparr>Code = ''not_found'',
                  Message = ''path not found: '' @ userPath,
                  Suggestions = suggestFiles sys fs candidateAbs\<rparr>
         | Some real \<Rightarrow> Inr real)
      else
        (case EvalSymlinks fs candidateAbs of
           Some real \<Rightarrow> Inr real
         | None \<Rightarrow>
             (let parentAbs = Dir candidateAbs
              in case EvalSymlinks fs parentAbs of
                   None \<Rightarrow>
                     Inl \<lparr>Code = ''not_found'',
                          Message = ''parent directory not found: '' @ Dir userPath,
                          Suggestions = suggestFiles sys fs parentAbs\<rparr>
                 | Some parentReal \<Rightarrow> Inr (Join [parentReal, Base candidateAbs]))))"

definition Resolve :: "os \<Rightarrow> filesystem \<Rightarrow> PathSandbox \<Rightarrow> string \<Rightarrow> PathAccess \<Rightarrow> SandboxError + string" where
  "Resolve sys fs s userPath access =
     (if TrimSpace userPath = []
      then Inl \<lparr>Code = ''invalid_argument'', Message = ''path cannot be empty'', Suggestions = []\<rparr>
      else
        let clean = Clean userPath;
            candidate = (if IsAbs clean then clean else Join [Root s, clean])
        in case Abs sys candidate of
             Inl err \<Rightarrow>
               Inl \<lparr>Code = ''invalid_argument'', Message = ''failed to resolve path: '' @ err,
                    Suggestions = []\<rparr>
           | Inr candidateAbs \<Rightarrow>
               (case symlinkProtection sys fs userPath candidateAbs access of
                  Inl rejection \<Rightarrow> Inl rejection
                | Inr candidateReal \<Rightarrow>
                    (let rel = Rel (Root s) candidateReal
                     in if rel = None \<or> rel = Some ''..''
                           \<or> (case rel of None \<Rightarrow> False | Some r \<Rightarrow> HasPrefix r (''..'' @ [Separator]))
                        then Inl \<lparr>Code = ''permission_denied'',
                                  Message = ''path escapes project root: '' @ userPath,
                                  Suggestions =
                                    [''Use a relative path under the project root (e.g., ''
                                     @ [CHR 0x27] @ ''./subdir/file.txt'' @ [CHR 0x27] @ '')'']\<rparr>
                        else Inr candidateReal)))"

section \<open>errors.go and tools.go\<close>

record ToolError =
  code :: string
  message :: string
  suggestions :: "string list"

record ToolResult =
  OK :: bool
  Data :: "(string \<times> any) list option"
  Error :: "ToolError option"

definition AsMap :: "ToolResult \<Rightarrow> (string \<times> any) list" where
  "AsMap r =
     [(''ok'', AnyBool (OK r))]
     @ (case Data r of None \<Rightarrow> [] | Some d \<Rightarrow> [(''data'', AnyMap d)])
     @ (case Error r of
          None \<Rightarrow> []
        | Some e \<Rightarrow>
            [(''error'', AnyMap [(''code'', AnyString (code e)),
                                 (''message'', AnyString (message e)),
                                 (''suggestions'', AnyList (map AnyString (suggestions e)))])])"

definition NewSuccessResult :: "(string \<times> any) list option \<Rightarrow> ToolResult" where
  "NewSuccessResult data = \<lparr>OK = True, Data = data, Error = None\<rparr>"

definition NewErrorResult :: "string \<Rightarrow> string \<Rightarrow> string list \<Rightarrow> ToolResult" where
  "NewErrorResult c m sugg =
     \<lparr>OK = False, Data = None, Error = Some \<lparr>code = c, message = m, suggestions = sugg\<rparr>\<rparr>"

definition NewErrorResultFromSandbox :: "SandboxError \<Rightarrow> ToolResult" where
  "NewErrorResultFromSandbox err = NewErrorResult (Code err) (Message err) (Suggestions err)"

record FunctionCall =
  Name :: string
  Args :: "string \<Rightarrow> any option"

definition getStringArg :: "FunctionCall \<Rightarrow> string \<Rightarrow> string + string" where
  "getStringArg fc key =
     (case Args fc key of
        None \<Rightarrow> Inl (''missing argument: '' @ key)
      | Some (AnyString val) \<Rightarrow> Inr val
      | Some _ \<Rightarrow> Inl (''argument '' @ key @ '' must be a string''))"

definition readFile :: "os \<Rightarrow> filesystem \<Rightarrow> PathSandbox \<Rightarrow> FunctionCall \<Rightarrow> ToolResult" where
  "readFile sys fs sandbox fc =
     (case getStringArg fc ''path'' of
        Inl err \<Rightarrow> NewErrorResult ''invalid_argument'' err []
      | Inr path \<Rightarrow>
          (case Resolve sys fs sandbox path AccessReadFile of
             Inl sandboxErr \<Rightarrow> NewErrorResultFromSandbox sandboxErr
           | Inr resolvedPath \<Rightarrow>
               (case os_ReadFile sys fs resolvedPath of
                  Inl err \<Rightarrow> NewErrorResult ''io_error'' (''failed to read file: '' @ err) []
                | Inr content \<Rightarrow> NewSuccessResult (Some [(''content'', AnyString content)]))))"

text \<open>The decimal digits of a number, for \<open>%d\<close>.\<close>

fun decimal :: "nat \<Rightarrow> string" where
  "decimal n = (if n < 10 then [char_of (48 + n)] else decimal (n div 10) @ [char_of (48 + n mod 10)])"

declare decimal.simps [simp del]

definition writeFile :: "os \<Rightarrow> filesystem \<Rightarrow> PathSandbox \<Rightarrow> FunctionCall \<Rightarrow> ToolResult \<times> filesystem" where
  "writeFile sys fs sandbox fc =
     (case getStringArg fc ''path'' of
        Inl err \<Rightarrow> (NewErrorResult ''invalid_argument'' err [], fs)
      | Inr path \<Rightarrow>
          (case getStringArg fc ''content'' of
             Inl err \<Rightarrow> (NewErrorResult ''invalid_argument'' err [], fs)
           | Inr content \<Rightarrow>
               (case Resolve sys fs sandbox path AccessWriteFile of
                  Inl sandboxErr \<Rightarrow> (NewErrorResultFromSandbox sandboxErr, fs)
                | Inr resolvedPath \<Rightarrow>
                    (case os_WriteFile sys fs resolvedPath content of
                       (Some err, fs') \<Rightarrow>
                         (NewErrorResult ''io_error'' (''failed to write file: '' @ err) [], fs')
                     | (None, fs') \<Rightarrow>
                         (NewSuccessResult
                            (Some [(''message'',
                                    AnyString (''wrote '' @ decimal (length content)
                                               @ '' bytes to '' @ path))]),
                          fs')))))"

definition listFiles :: "os \<Rightarrow> filesystem \<Rightarrow> PathSandbox \<Rightarrow> FunctionCall \<Rightarrow> ToolResult" where
  "listFiles sys fs sandbox fc =
     (case getStringArg fc ''path'' of
        Inl err \<Rightarrow> NewErrorResult ''invalid_argument'' err []
      | Inr path \<Rightarrow>
          (case Resolve sys fs sandbox path AccessListDir of
             Inl sandboxErr \<Rightarrow> NewErrorResultFromSandbox sandboxErr
           | Inr resolvedPath \<Rightarrow>
               (case os_ReadDir sys fs resolvedPath of
                  Inl err \<Rightarrow> NewErrorResult ''io_error'' (''failed to list directory: '' @ err) []
                | Inr entries \<Rightarrow>
                    (let files = map (\<lambda>(name, isDir). if isDir then name @ ''/'' else name) entries
                     in NewSuccessResult
                          (Some [(''files'', AnyList (map AnyString (sort files)))])))))"

text \<open>
  \<open>getWeather\<close>. The coordinates are the two string constants of the source; the request
  URL is built from them alone.
\<close>

definition weatherURL :: "string \<Rightarrow> string" where
  "weatherURL location =
     (let lat = ''[REDACTED]''; lon = ''[REDACTED]''
      in ''https://api.open-meteo.com/v1/forecast?latitude='' @ lat @ ''&longitude='' @ lon
         @ ''&current_weather=true'')"

definition getWeather :: "os \<Rightarrow> FunctionCall \<Rightarrow> ToolResult" where
  "getWeather sys fc =
     (case getStringArg fc ''location'' of
        Inl err \<Rightarrow> NewErrorResult ''invalid_argument'' err []
      | Inr location \<Rightarrow>
          (case http_Get sys (weatherURL location) of
             Inl err \<Rightarrow> NewErrorResult ''network_error'' (''failed to fetch weather: '' @ err) []
           | Inr body \<Rightarrow>
               (case json_Decode sys body of
                  Inl err \<Rightarrow>
                    NewErrorResult ''parse_error'' (''failed to parse weather response: '' @ err) []
                | Inr data \<Rightarrow> NewSuccessResult data)))"

definition executeTool :: "os \<Rightarrow> filesystem \<Rightarrow> PathSandbox \<Rightarrow> FunctionCall \<Rightarrow> ToolResult \<times> filesystem" where
  "executeTool sys fs sandbox fc =
     (if Name fc = ''read_file'' then (readFile sys fs sandbox fc, fs)
      else if Name fc = ''write_file'' then writeFile sys fs sandbox fc
      else if Name fc = ''list_files'' then (listFiles sys fs sandbox fc, fs)
      else if Name fc = ''get_weather'' then (getWeather sys fc, fs)
      else (NewErrorResult ''invalid_argument'' (''unknown tool: '' @ Name fc) [], fs))"

section \<open>agent.go\<close>

text \<open>
  The SDK's types, as far as the agent reads them. A response carries candidates; the
  agent reads the parts of the first one. The model transport is a function from the
  history sent to the sequence of pairs (response, error) that the stream yields.
\<close>

record FunctionResponse =
  ResponseName :: string
  Response :: "(string \<times> any) list"

record Part =
  Text :: string
  FunctionCall :: "FunctionCall option"
  FunctionResponse :: "FunctionResponse option"

record Content =
  Role :: string
  Parts :: "Part list"

record Candidate =
  Content :: Content

record GenerateContentResponse =
  Candidates :: "Candidate list"

type_synonym stream = "(GenerateContentResponse option \<times> string option) list"

record Agent =
  sandbox :: PathSandbox
  history :: "Content list"

text \<open>The inner loop of \<open>streamModelResponse\<close> over the parts of one response.\<close>

fun partsLoop :: "Part list \<Rightarrow> Part list \<times> FunctionCall list \<Rightarrow> Part list \<times> FunctionCall list" where
  "partsLoop [] (allParts, allCalls) = (allParts, allCalls)"
| "partsLoop (part # parts) (allParts, allCalls) =
     partsLoop parts
       (allParts @ [part],
        (case FunctionCall part of None \<Rightarrow> allCalls | Some call \<Rightarrow> allCalls @ [call]))"

fun streamLoop :: "stream \<Rightarrow> Part list \<times> FunctionCall list \<Rightarrow> string + Part list \<times> FunctionCall list" where
  "streamLoop [] acc = Inr acc"
| "streamLoop ((resp, err) # rest) acc =
     (case err of
        Some e \<Rightarrow> Inl (''stream error: '' @ e)
      | None \<Rightarrow>
          (case resp of
             None \<Rightarrow> streamLoop rest acc
           | Some r \<Rightarrow>
               (case Candidates r of
                  [] \<Rightarrow> streamLoop rest acc
                | c # _ \<Rightarrow> streamLoop rest (partsLoop (Parts (Content c)) acc))))"

definition streamModelResponse :: "stream \<Rightarrow> string + Content \<times> FunctionCall list" where
  "streamModelResponse str =
     (case streamLoop str ([], []) of
        Inl err \<Rightarrow> Inl err
      | Inr (allParts, allCalls) \<Rightarrow> Inr (\<lparr>Role = ''model'', Parts = allParts\<rparr>, allCalls))"

fun executeToolCalls :: "os \<Rightarrow> filesystem \<Rightarrow> PathSandbox \<Rightarrow> FunctionCall list \<Rightarrow> Part list \<times> filesystem" where
  "executeToolCalls sys fs sb [] = ([], fs)"
| "executeToolCalls sys fs sb (call # calls) =
     (let (result, fs') = executeTool sys fs sb call;
          part = \<lparr>Text = [], FunctionCall = None,
                  FunctionResponse = Some \<lparr>ResponseName = Name call, Response = AsMap result\<rparr>\<rparr>;
          (parts, fs'') = executeToolCalls sys fs' sb calls
      in (part # parts, fs''))"

text \<open>
  \<open>processStreamWithTools\<close>. The loop runs as long as the model asks for tools, so the
  model takes a bound on the number of rounds; \<open>None\<close> means the bound was reached. The
  result is the error returned (if any), the agent and the file system.
\<close>

fun processStreamWithTools ::
  "os \<Rightarrow> (Content list \<Rightarrow> stream) \<Rightarrow> nat \<Rightarrow> Agent \<Rightarrow> filesystem \<Rightarrow> (string option \<times> Agent \<times> filesystem) option" where
  "processStreamWithTools sys transport 0 a fs = None"
| "processStreamWithTools sys transport (Suc rounds) a fs =
     (case streamModelResponse (transport (history a)) of
        Inl err \<Rightarrow> Some (Some err, a, fs)
      | Inr (modelContent, calls) \<Rightarrow>
          (let a1 = a\<lparr>history := history a @ [modelContent]\<rparr>
           in if length calls = 0 then Some (None, a1, fs)
              else
                (let (toolResponseParts, fs') = executeToolCalls sys fs (sandbox a1) calls;
                     toolResponseContent = \<lparr>Role = ''user'', Parts = toolResponseParts\<rparr>
                 in processStreamWithTools sys transport rounds
                      (a1\<lparr>history := history a1 @ [toolResponseContent]\<rparr>) fs')))"

section \<open>Notions used in the statements\<close>

text \<open>
  The content pieces of one streamed fragment (the parts of its first candidate; none
  when the response is nil or has no candidate), and the tool calls among a list of parts.
\<close>

definition fragmentParts :: "GenerateContentResponse option \<times> string option \<Rightarrow> Part list" where
  "fragmentParts item =
     (case fst item of
        None \<Rightarrow> []
      | Some r \<Rightarrow> (case Candidates r of [] \<Rightarrow> [] | c # _ \<Rightarrow> Parts (Content c)))"

fun callsOf :: "Part list \<Rightarrow> FunctionCall list" where
  "callsOf [] = []"
| "callsOf (part # parts) =
     (case FunctionCall part of None \<Rightarrow> callsOf parts | Some call \<Rightarrow> call # callsOf parts)"




text \<open>
  An operating system to run the definitions on. It lists a directory of the file system
  in the order of the names, reads every regular file as \<open>hello\<close>, creates a missing file
  whose directory exists (following no link), answers every fetch with the same document
  and lower-cases the ASCII letters. Its \<open>Glob\<close> knows the patterns \<open>dir/*\<close>; as in Go, a
  star in the directory part is expanded too, here for a directory pattern that ends in
  a star: \<open>/ws/a*/*\<close> stands for the entries of every directory in \<open>/ws\<close> whose name starts
  with \<open>a\<close>.
\<close>

definition asciiLower :: "string \<Rightarrow> string" where
  "asciiLower s =
     map (\<lambda>c. if CHR ''A'' \<le> c \<and> c \<le> CHR ''Z'' then char_of (of_char c + (32::nat)) else c) s"

definition listing :: "filesystem \<Rightarrow> string \<Rightarrow> (string \<times> bool) list" where
  "listing fs dir =
     (case Lstat fs (elements dir) of
        Some (Directory entries) \<Rightarrow>
          map (\<lambda>name. (name, (case map_of entries name of Some (Directory sub) \<Rightarrow> True | _ \<Rightarrow> False)))
              (sort (map fst entries))
      | _ \<Rightarrow> [])"

definition globDir :: "filesystem \<Rightarrow> string \<Rightarrow> string list" where
  "globDir fs dir =
     (if dir \<noteq> [] \<and> last dir = CHR ''*''
      then map (\<lambda>(name, isDir). Join [Dir dir, name])
               (filter (\<lambda>(name, isDir). isDir \<and> prefix (butlast (Base dir)) name)
                       (listing fs (Dir dir)))
      else [dir])"

fun putFile :: "string list \<Rightarrow> (string \<times> node) list \<Rightarrow> (string \<times> node) list" where
  "putFile [] entries = entries"
| "putFile [x] entries = (if map_of entries x = None then entries @ [(x, File)] else entries)"
| "putFile (x # y # ys) [] = []"
| "putFile (x # y # ys) ((name, child) # entries) =
     (if name = x
      then (name, (case child of Directory sub \<Rightarrow> Directory (putFile (y # ys) sub) | _ \<Rightarrow> child)) # entries
      else (name, child) # putFile (x # y # ys) entries)"

definition example_os :: os where
  "example_os =
     \<lparr>os_Getwd = Inr [''ws''],
      os_Glob = (\<lambda>fs pattern.
         if Base pattern = ''*''
         then Some (concat (map (\<lambda>dir. map (\<lambda>(name, isDir). Join [dir, name]) (listing fs dir))
                                (globDir fs (Dir pattern))))
         else Some []),
      os_ReadFile = (\<lambda>fs path.
         case Lstat fs (elements path) of Some File \<Rightarrow> Inr ''hello'' | _ \<Rightarrow> Inl ''not a regular file''),
      os_WriteFile = (\<lambda>fs path content. (None, putFile (elements path) fs)),
      os_ReadDir = (\<lambda>fs path.
         case Lstat fs (elements path) of
           Some (Directory entries) \<Rightarrow> Inr (listing fs path)
         | _ \<Rightarrow> Inl ''not a directory''),
      http_Get = (\<lambda>url. Inr ''{}''),
      json_Decode = (\<lambda>body. Inr (Some [(''temperature'', AnyNumber 21)])),
      strings_ToLower = asciiLower\<rparr>"

text \<open>
  The ranking that the suggestions are compared with: the names that match the missing
  name as a prefix, in listing order, then the names that contain it without starting
  with it, each once, at most three in all; both matches ignore case. \<open>hint\<close> is the
  wording of one suggestion.
\<close>

definition prefixMatch :: "os \<Rightarrow> string \<Rightarrow> string \<Rightarrow> bool" where
  "prefixMatch sys baseName name = HasPrefix (strings_ToLower sys name) (strings_ToLower sys baseName)"

definition substringMatch :: "os \<Rightarrow> string \<Rightarrow> string \<Rightarrow> bool" where
  "substringMatch sys baseName name = Contains (strings_ToLower sys name) (strings_ToLower sys baseName)"

function firstOccurrences :: "'a list \<Rightarrow> 'a list" where
  "firstOccurrences [] = []"
| "firstOccurrences (x # xs) = x # firstOccurrences (removeAll x xs)"
  by pat_completeness auto
termination
  by (relation "measure length") (auto simp: less_Suc_eq_le length_removeAll_less_eq)

definition rankedMatches :: "os \<Rightarrow> string \<Rightarrow> string list \<Rightarrow> string list" where
  "rankedMatches sys baseName names =
     take 3 (filter (prefixMatch sys baseName) names
             @ firstOccurrences
                 (filter (\<lambda>name. substringMatch sys baseName name \<and> \<not> prefixMatch sys baseName name)
                         names))"

definition hint :: "string \<Rightarrow> string" where
  "hint name = ''Did you mean '' @ [CHR 0x27] @ name @ [CHR 0x27] @ ''?''"

text \<open>
  Notions for the sandbox. A name is a path element that is not empty, not \<open>.\<close> or
  \<open>..\<close> and has no separator; \<open>absPath\<close> writes a list of elements as an absolute path.
  A path is canonical when it is absolute and \<open>Clean\<close> leaves it as it is. \<open>within root path\<close>
  is containment: the elements of the root are the first elements of the path.
  \<open>escapes\<close> is the test of step 5 on the result of \<open>Rel\<close>, and \<open>candidateOf\<close> is the
  absolute candidate path of steps 2 and 3.
\<close>

definition isName :: "string \<Rightarrow> bool" where
  "isName e = (e \<noteq> [] \<and> e \<noteq> ''.'' \<and> e \<noteq> ''..'' \<and> Separator \<notin> set e)"

definition absPath :: "string list \<Rightarrow> string" where
  "absPath cs = Separator # joinSlash cs"

definition canonical :: "string \<Rightarrow> bool" where
  "canonical path = (IsAbs path \<and> Clean path = path)"

definition within :: "string \<Rightarrow> string \<Rightarrow> bool" where
  "within root path = prefix (elements root) (elements path)"

definition escapes :: "string option \<Rightarrow> bool" where
  "escapes rel = (rel = None \<or> rel = Some ''..''
                  \<or> (case rel of None \<Rightarrow> False | Some r \<Rightarrow> HasPrefix r (''..'' @ [Separator])))"

definition candidateOf :: "os \<Rightarrow> PathSandbox \<Rightarrow> string \<Rightarrow> string + string" where
  "candidateOf sys s userPath =
     (let clean = Clean userPath
      in Abs sys (if IsAbs clean then clean else Join [Root s, clean]))"

text \<open>
  A path is real in a file system when it exists there and is not a symbolic link; in a
  tree every element before the last is then a directory. \<open>kind\<close> is what \<open>Lstat\<close> tells
  of a node, \<open>sameFiles\<close> says that two file systems answer every \<open>Lstat\<close> alike, and
  \<open>outcome\<close> is the path or the code of the rejection that \<open>Resolve\<close> returns.
\<close>

definition realPath :: "filesystem \<Rightarrow> string list \<Rightarrow> bool" where
  "realPath fs p = (case Lstat fs p of None \<Rightarrow> False | Some (Symlink link) \<Rightarrow> False | Some other \<Rightarrow> True)"

definition kind :: "node \<Rightarrow> bool + string" where
  "kind n = (case n of File \<Rightarrow> Inl False | Directory entries \<Rightarrow> Inl True | Symlink link \<Rightarrow> Inr link)"

definition sameFiles :: "filesystem \<Rightarrow> filesystem \<Rightarrow> bool" where
  "sameFiles fs fs' = (\<forall>p. map_option kind (Lstat fs p) = map_option kind (Lstat fs' p))"

definition outcome :: "SandboxError + string \<Rightarrow> string + string" where
  "outcome result = (case result of Inl rejection \<Rightarrow> Inl (Code rejection) | Inr path \<Rightarrow> Inr path)"

section \<open>The turn loop\<close>

lemma callsOf_append: "callsOf (ps @ qs) = callsOf ps @ callsOf qs"
  by (induction ps) (auto split: option.splits)

lemma partsLoop_eq: "partsLoop ps (allParts, allCalls) = (allParts @ ps, allCalls @ callsOf ps)"
  by (induction ps arbitrary: allParts allCalls)
     (auto split: option.splits)

lemma streamLoop_complete:
  "\<forall>item \<in> set str. snd item = None \<Longrightarrow>
   streamLoop str (allParts, allCalls) =
     Inr (allParts @ concat (map fragmentParts str),
          allCalls @ callsOf (concat (map fragmentParts str)))"
proof (induction str arbitrary: allParts allCalls)
  case Nil
  show ?case by simp
next
  case (Cons item str)
  obtain resp err where item: "item = (resp, err)" by (cases item)
  from Cons.prems item have err: "err = None" by simp
  have rest: "\<forall>item \<in> set str. snd item = None" using Cons.prems by simp
  show ?case
    using Cons.IH[OF rest]
    by (auto simp: item err fragmentParts_def partsLoop_eq callsOf_append
             split: option.splits list.splits)
qed

lemma streamLoop_error:
  "\<forall>item \<in> set pre. snd item = None \<Longrightarrow>
   streamLoop (pre @ (resp, Some e) # post) acc = Inl (''stream error: '' @ e)"
proof (induction pre arbitrary: acc)
  case Nil
  show ?case by simp
next
  case (Cons item pre)
  obtain r er where item: "item = (r, er)" by (cases item)
  from Cons.prems item have er: "er = None" by simp
  have rest: "\<forall>item \<in> set pre. snd item = None" using Cons.prems by simp
  show ?case
    using Cons.IH[OF rest]
    by (auto simp: item er split: option.splits list.splits)
qed




lemma history_grows:
  "processStreamWithTools sys transport n a fs = Some (r, a', fs') \<Longrightarrow> prefix (history a) (history a')"
proof (induction n arbitrary: a fs)
  case 0
  then show ?case by simp
next
  case (Suc n)
  show ?case
  proof (cases "streamModelResponse (transport (history a))")
    case (Inl err)
    with Suc.prems show ?thesis by simp
  next
    case (Inr p)
    obtain c calls where p: "p = (c, calls)" by (cases p)
    show ?thesis
    proof (cases "calls = []")
      case True
      with Suc.prems Inr p show ?thesis by auto
    next
      case False
      obtain parts fs1 where ex: "executeToolCalls sys fs (sandbox a) calls = (parts, fs1)"
        by (cases "executeToolCalls sys fs (sandbox a) calls")
      from Suc.prems Inr p False ex
      have "processStreamWithTools sys transport n
              (a\<lparr>history := history a @ [c, \<lparr>Role = ''user'', Parts = parts\<rparr>]\<rparr>) fs1 = Some (r, a', fs')"
        by simp
      from Suc.IH[OF this] show ?thesis
        by (auto dest: append_prefixD)
    qed
  qed
qed

lemma error_history:
  "processStreamWithTools sys transport n a fs = Some (Some err, a', fs') \<Longrightarrow>
   streamModelResponse (transport (history a')) = Inl err"
proof (induction n arbitrary: a fs)
  case 0
  then show ?case by simp
next
  case (Suc n)
  show ?case
  proof (cases "streamModelResponse (transport (history a))")
    case (Inl e)
    with Suc.prems show ?thesis by auto
  next
    case (Inr p)
    obtain c calls where p: "p = (c, calls)" by (cases p)
    show ?thesis
    proof (cases "calls = []")
      case True
      with Suc.prems Inr p show ?thesis by auto
    next
      case False
      obtain parts fs1 where ex: "executeToolCalls sys fs (sandbox a) calls = (parts, fs1)"
        by (cases "executeToolCalls sys fs (sandbox a) calls")
      from Suc.prems Inr p False ex
      have "processStreamWithTools sys transport n
              (a\<lparr>history := history a @ [c, \<lparr>Role = ''user'', Parts = parts\<rparr>]\<rparr>) fs1 = Some (Some err, a', fs')"
        by simp
      from Suc.IH[OF this] show ?thesis .
    qed
  qed
qed

text \<open>
  C4. When the stream of one model invocation ends without a transport error, the
  orchestrator appends exactly one entry of role \<open>model\<close>; its parts are the content
  pieces of all fragments in their order, so its text is the concatenation of the
  fragments' texts. The next entry, if any, is the single tool-result entry of the round.
\<close>

theorem one_model_entry_per_invocation:
  assumes "transport (history a) = str"
    and "\<forall>item \<in> set str. snd item = None"
  shows "let merged = concat (map fragmentParts str);
             entry = \<lparr>Role = ''model'', Parts = merged\<rparr>
         in streamModelResponse str = Inr (entry, callsOf merged)
            \<and> concat (map Text (Parts entry)) = concat (map (\<lambda>item. concat (map Text (fragmentParts item))) str)
            \<and> processStreamWithTools sys transport (Suc n) a fs =
                (if callsOf merged = [] then Some (None, a\<lparr>history := history a @ [entry]\<rparr>, fs)
                 else processStreamWithTools sys transport n
                        (a\<lparr>history := history a @
                             [entry, \<lparr>Role = ''user'',
                                      Parts = fst (executeToolCalls sys fs (sandbox a) (callsOf merged))\<rparr>]\<rparr>)
                        (snd (executeToolCalls sys fs (sandbox a) (callsOf merged))))"
proof -
  have sl: "streamLoop str ([], []) =
              Inr (concat (map fragmentParts str), callsOf (concat (map fragmentParts str)))"
    using streamLoop_complete[OF assms(2), of "[]" "[]"] by simp
  have merged_text: "concat (map Text (concat (map fragmentParts str))) =
              concat (map (\<lambda>item. concat (map Text (fragmentParts item))) str)"
    by (induction str) simp_all
  show ?thesis
    using sl merged_text assms(1)
    by (simp add: streamModelResponse_def Let_def case_prod_unfold)
qed

theorem one_model_entry_per_invocation_witness:
  "processStreamWithTools example_os
     (\<lambda>h. [(Some \<lparr>Candidates = [\<lparr>Content = \<lparr>Role = ''model'',
                 Parts = [\<lparr>Text = ''Hel'', FunctionCall = None, FunctionResponse = None\<rparr>]\<rparr>\<rparr>]\<rparr>, None),
            (None, None),
            (Some \<lparr>Candidates = []\<rparr>, None),
            (Some \<lparr>Candidates = [\<lparr>Content = \<lparr>Role = ''model'',
                 Parts = [\<lparr>Text = ''lo'', FunctionCall = None, FunctionResponse = None\<rparr>]\<rparr>\<rparr>]\<rparr>, None)])
     (Suc 0) \<lparr>sandbox = \<lparr>Root = ''/ws''\<rparr>, history = []\<rparr> []
   = Some (None,
           \<lparr>sandbox = \<lparr>Root = ''/ws''\<rparr>,
            history = [\<lparr>Role = ''model'',
                        Parts = [\<lparr>Text = ''Hel'', FunctionCall = None, FunctionResponse = None\<rparr>,
                                 \<lparr>Text = ''lo'', FunctionCall = None, FunctionResponse = None\<rparr>]\<rparr>]\<rparr>,
           [])"
  using one_model_entry_per_invocation
    [of "\<lambda>h. [(Some \<lparr>Candidates = [\<lparr>Content = \<lparr>Role = ''model'',
                 Parts = [\<lparr>Text = ''Hel'', FunctionCall = None, FunctionResponse = None\<rparr>]\<rparr>\<rparr>]\<rparr>, None),
            (None, None),
            (Some \<lparr>Candidates = []\<rparr>, None),
            (Some \<lparr>Candidates = [\<lparr>Content = \<lparr>Role = ''model'',
                 Parts = [\<lparr>Text = ''lo'', FunctionCall = None, FunctionResponse = None\<rparr>]\<rparr>\<rparr>]\<rparr>, None)]"
        "\<lparr>sandbox = \<lparr>Root = ''/ws''\<rparr>, history = []\<rparr>" _ example_os 0 "[]"]
  by (simp add: fragmentParts_def Let_def del: processStreamWithTools.simps)






lemma streamModelResponse_Role:
  "streamModelResponse str = Inr (entry, calls) \<Longrightarrow> Role entry = ''model''"
  by (auto simp: streamModelResponse_def split: sum.splits prod.splits)

text \<open>
  C6. When the stream yields an error, whatever fragments came before it, the invocation
  returns that error, the turn ends with it, and neither a model entry nor a tool-result
  entry of that invocation is appended: the history returned is the one the failed
  invocation was called with. Every round either fails and leaves the agent and the file
  system as they were, or appends its one model entry.
\<close>

theorem stream_error_appends_nothing:
  "(transport (history a) = pre @ (resp, Some e) # post \<and> (\<forall>item \<in> set pre. snd item = None)
      \<longrightarrow> streamModelResponse (transport (history a)) = Inl (''stream error: '' @ e)
          \<and> processStreamWithTools sys transport (Suc n) a fs
              = Some (Some (''stream error: '' @ e), a, fs))
   \<and> (processStreamWithTools sys transport m a fs = Some (Some err, a', fs')
      \<longrightarrow> prefix (history a) (history a')
          \<and> streamModelResponse (transport (history a')) = Inl err)
   \<and> (processStreamWithTools sys transport (Suc n) a fs = Some (r, a', fs')
      \<longrightarrow> (\<exists>err. streamModelResponse (transport (history a)) = Inl err
                \<and> r = Some err \<and> a' = a \<and> fs' = fs)
          \<or> (\<exists>entry calls. streamModelResponse (transport (history a)) = Inr (entry, calls)
                \<and> Role entry = ''model'' \<and> prefix (history a @ [entry]) (history a')))"
proof (intro conjI impI)
  assume h: "transport (history a) = pre @ (resp, Some e) # post \<and> (\<forall>item \<in> set pre. snd item = None)"
  then show s: "streamModelResponse (transport (history a)) = Inl (''stream error: '' @ e)"
    by (simp add: streamModelResponse_def streamLoop_error)
  then show "processStreamWithTools sys transport (Suc n) a fs
              = Some (Some (''stream error: '' @ e), a, fs)"
    by simp
next
  assume "processStreamWithTools sys transport m a fs = Some (Some err, a', fs')"
  then show "prefix (history a) (history a')"
    by (rule history_grows)
next
  assume "processStreamWithTools sys transport m a fs = Some (Some err, a', fs')"
  then show "streamModelResponse (transport (history a')) = Inl err"
    by (rule error_history)
next
  assume run: "processStreamWithTools sys transport (Suc n) a fs = Some (r, a', fs')"
  show "(\<exists>err. streamModelResponse (transport (history a)) = Inl err
                \<and> r = Some err \<and> a' = a \<and> fs' = fs)
          \<or> (\<exists>entry calls. streamModelResponse (transport (history a)) = Inr (entry, calls)
                \<and> Role entry = ''model'' \<and> prefix (history a @ [entry]) (history a'))"
  proof (cases "streamModelResponse (transport (history a))")
    case (Inl err)
    with run show ?thesis by auto
  next
    case (Inr p)
    obtain entry calls where p: "p = (entry, calls)" by (cases p)
    have role: "Role entry = ''model''"
      using Inr p by (simp add: streamModelResponse_Role)
    have "prefix (history a @ [entry]) (history a')"
    proof (cases "calls = []")
      case True
      with run Inr p show ?thesis by auto
    next
      case False
      with run Inr p
      have "processStreamWithTools sys transport n
              (a\<lparr>history := history a @
                   [entry, \<lparr>Role = ''user'', Parts = fst (executeToolCalls sys fs (sandbox a) calls)\<rparr>]\<rparr>)
              (snd (executeToolCalls sys fs (sandbox a) calls)) = Some (r, a', fs')"
        by (simp add: case_prod_unfold Let_def)
      from history_grows[OF this]
      have "prefix ((history a @ [entry]) @ [\<lparr>Role = ''user'', Parts = fst (executeToolCalls sys fs (sandbox a) calls)\<rparr>]) (history a')"
        by simp
      then show ?thesis by (rule append_prefixD)
    qed
    with Inr p role show ?thesis by simp
  qed
qed

theorem stream_error_appends_nothing_witness:
  "processStreamWithTools example_os
     (\<lambda>h. [(Some \<lparr>Candidates = [\<lparr>Content = \<lparr>Role = ''model'',
                 Parts = [\<lparr>Text = ''Hel'', FunctionCall = None, FunctionResponse = None\<rparr>]\<rparr>\<rparr>]\<rparr>, None),
            (None, Some ''connection reset''),
            (Some \<lparr>Candidates = []\<rparr>, None)])
     (Suc 0)
     \<lparr>sandbox = \<lparr>Root = ''/ws''\<rparr>,
      history = [\<lparr>Role = ''user'', Parts = [\<lparr>Text = ''hi'', FunctionCall = None, FunctionResponse = None\<rparr>]\<rparr>]\<rparr>
     []
   = Some (Some ''stream error: connection reset'',
           \<lparr>sandbox = \<lparr>Root = ''/ws''\<rparr>,
            history = [\<lparr>Role = ''user'', Parts = [\<lparr>Text = ''hi'', FunctionCall = None, FunctionResponse = None\<rparr>]\<rparr>]\<rparr>,
           [])"
proof -
  let ?frag = "(Some \<lparr>Candidates = [\<lparr>Content = \<lparr>Role = ''model'',
                 Parts = [\<lparr>Text = ''Hel'', FunctionCall = None, FunctionResponse = None\<rparr>]\<rparr>\<rparr>]\<rparr>,
                None :: string option)"
  let ?post = "[(Some \<lparr>Candidates = []\<rparr>, None :: string option)]"
  let ?tr = "\<lambda>h :: Content list. [?frag, (None, Some ''connection reset''), (Some \<lparr>Candidates = []\<rparr>, None)]"
  let ?a = "\<lparr>sandbox = \<lparr>Root = ''/ws''\<rparr>,
      history = [\<lparr>Role = ''user'', Parts = [\<lparr>Text = ''hi'', FunctionCall = None, FunctionResponse = None\<rparr>]\<rparr>]\<rparr>"
  have h: "?tr (history ?a) = [?frag] @ (None, Some ''connection reset'') # ?post
           \<and> (\<forall>item \<in> set [?frag]. snd item = None)"
    by simp
  have "processStreamWithTools example_os ?tr (Suc 0) ?a []
        = Some (Some (''stream error: '' @ ''connection reset''), ?a, [])"
    using stream_error_appends_nothing
      [of ?tr ?a "[?frag]" None "''connection reset''" ?post example_os 0 "[]" 0 "''x''" ?a "[]" None] h
    by blast
  then show ?thesis by (simp del: processStreamWithTools.simps)
qed

section \<open>The tools\<close>

text \<open>
  C10. \<open>getWeather\<close> builds the same request URL, from the fixed coordinates, for every
  location, and two calls with any two string locations give the same result; a missing
  location or one that is not a string gives \<open>invalid_argument\<close>.
\<close>

theorem getWeather_ignores_location:
  "(Args fc1 ''location'' = Some (AnyString l1) \<and> Args fc2 ''location'' = Some (AnyString l2)
      \<longrightarrow> weatherURL l1 = weatherURL l2 \<and> getWeather sys fc1 = getWeather sys fc2)
   \<and> (Args fc1 ''location'' = None
      \<longrightarrow> getWeather sys fc1
          = NewErrorResult ''invalid_argument'' ''missing argument: location'' [])
   \<and> (Args fc1 ''location'' = Some v \<and> (\<forall>l. v \<noteq> AnyString l)
      \<longrightarrow> getWeather sys fc1
          = NewErrorResult ''invalid_argument'' ''argument location must be a string'' [])"
  by (auto simp: getWeather_def getStringArg_def weatherURL_def split: any.splits)

theorem getWeather_ignores_location_witness:
  "getWeather example_os \<lparr>Name = ''get_weather'', Args = [''location'' \<mapsto> AnyString ''Houston, TX'']\<rparr>
   = getWeather example_os \<lparr>Name = ''get_weather'', Args = [''location'' \<mapsto> AnyString ''10001'']\<rparr>
   \<and> getWeather example_os \<lparr>Name = ''get_weather'', Args = [''location'' \<mapsto> AnyString ''10001'']\<rparr>
       = NewSuccessResult (Some [(''temperature'', AnyNumber 21)])
   \<and> getWeather example_os \<lparr>Name = ''get_weather'', Args = [''location'' \<mapsto> AnyNumber 10001]\<rparr>
       = NewErrorResult ''invalid_argument'' ''argument location must be a string'' []"
proof -
  let ?fc1 = "\<lparr>Name = ''get_weather'', Args = [''location'' \<mapsto> AnyString ''Houston, TX'']\<rparr>"
  let ?fc2 = "\<lparr>Name = ''get_weather'', Args = [''location'' \<mapsto> AnyString ''10001'']\<rparr>"
  let ?fc3 = "\<lparr>Name = ''get_weather'', Args = [''location'' \<mapsto> AnyNumber 10001]\<rparr>"
  have a1: "Args ?fc1 ''location'' = Some (AnyString ''Houston, TX'')
            \<and> Args ?fc2 ''location'' = Some (AnyString ''10001'')"
    by simp
  have a3: "Args ?fc3 ''location'' = Some (AnyNumber 10001) \<and> (\<forall>l. AnyNumber 10001 \<noteq> AnyString l)"
    by simp
  have same: "getWeather example_os ?fc1 = getWeather example_os ?fc2"
    using getWeather_ignores_location[of ?fc1 "''Houston, TX''" ?fc2 "''10001''" example_os "AnyNumber 0"] a1
    by blast
  have bad: "getWeather example_os ?fc3
             = NewErrorResult ''invalid_argument'' ''argument location must be a string'' []"
    using getWeather_ignores_location[of ?fc3 "''x''" ?fc3 "''y''" example_os "AnyNumber 10001"] a3
    by blast
  have val: "getWeather example_os ?fc2 = NewSuccessResult (Some [(''temperature'', AnyNumber 21)])"
    by (simp add: getWeather_def getStringArg_def example_os_def)
  show ?thesis using same bad val by blast
qed

section \<open>Suggestions\<close>

lemma prefix_Contains: "prefix sub s \<Longrightarrow> Contains s sub"
  by (cases s) auto

lemma prefixMatch_substringMatch: "prefixMatch sys b n \<Longrightarrow> substringMatch sys b n"
  by (simp add: prefixMatch_def substringMatch_def HasPrefix_def prefix_Contains)

lemma prefixLoop_eq:
  "length acc < 3 \<Longrightarrow>
   prefixLoop sys b names acc =
     (if 3 \<le> length (acc @ filter (prefixMatch sys b) names)
      then Inl (take 3 (acc @ filter (prefixMatch sys b) names))
      else Inr (acc @ filter (prefixMatch sys b) names))"
proof (induction names arbitrary: acc)
  case Nil
  then show ?case by simp
next
  case (Cons name names)
  show ?case
  proof (cases "prefixMatch sys b name")
    case False
    then show ?thesis using Cons by (simp add: prefixMatch_def[symmetric])
  next
    case True
    show ?thesis
    proof (cases "3 \<le> length (acc @ [name])")
      case True
      with Cons.prems have "length acc = 2" by simp
      with \<open>prefixMatch sys b name\<close> show ?thesis
        by (simp add: prefixMatch_def[symmetric])
    next
      case False
      then have "length (acc @ [name]) < 3" by simp
      from Cons.IH[OF this] \<open>prefixMatch sys b name\<close> False show ?thesis
        by (simp add: prefixMatch_def[symmetric])
    qed
  qed
qed

lemma substringLoop_eq:
  "length acc < 3 \<Longrightarrow>
   substringLoop sys b names acc =
     (let found = acc @ firstOccurrences (filter (\<lambda>n. substringMatch sys b n \<and> n \<notin> set acc) names)
      in if 3 \<le> length found then Inl (take 3 found) else Inr found)"
proof (induction names arbitrary: acc)
  case Nil
  then show ?case by simp
next
  case (Cons name names)
  show ?case
  proof (cases "substringMatch sys b name \<and> name \<notin> set acc")
    case False
    then show ?thesis using Cons by (auto simp: substringMatch_def[symmetric] Let_def)
  next
    case True
    have rm: "removeAll name (filter (\<lambda>n. substringMatch sys b n \<and> n \<notin> set acc) names)
              = filter (\<lambda>n. substringMatch sys b n \<and> n \<notin> set (acc @ [name])) names"
      by (induction names) auto
    show ?thesis
    proof (cases "3 \<le> length (acc @ [name])")
      case True
      with Cons.prems have "length acc = 2" by simp
      with \<open>substringMatch sys b name \<and> name \<notin> set acc\<close> show ?thesis
        by (simp add: substringMatch_def[symmetric] Let_def)
    next
      case False
      then have "length (acc @ [name]) < 3" by simp
      from Cons.IH[OF this] True False rm show ?thesis
        by (simp add: substringMatch_def[symmetric] Let_def)
    qed
  qed
qed

lemma formatSuggestions_hint: "formatSuggestions names = map hint (take 3 names)"
  by (simp add: formatSuggestions_def hint_def)

lemma matches_eq:
  "(case prefixLoop sys b names [] of
      Inl matches \<Rightarrow> formatSuggestions matches
    | Inr matches \<Rightarrow>
        (case substringLoop sys b names matches of
           Inl matches' \<Rightarrow> formatSuggestions matches'
         | Inr matches' \<Rightarrow> if 0 < length matches' then formatSuggestions matches' else []))
   = map hint (rankedMatches sys b names)"
proof -
  let ?P = "filter (prefixMatch sys b) names"
  let ?S = "firstOccurrences (filter (\<lambda>n. substringMatch sys b n \<and> \<not> prefixMatch sys b n) names)"
  have pl: "prefixLoop sys b names [] = (if 3 \<le> length ?P then Inl (take 3 ?P) else Inr ?P)"
    using prefixLoop_eq[of "[]" sys b names] by simp
  have fl: "filter (\<lambda>n. substringMatch sys b n \<and> n \<notin> set ?P) names
            = filter (\<lambda>n. substringMatch sys b n \<and> \<not> prefixMatch sys b n) names"
    by (rule filter_cong) auto
  show ?thesis
  proof (cases "3 \<le> length ?P")
    case True
    then show ?thesis by (simp add: pl formatSuggestions_hint rankedMatches_def)
  next
    case False
    then have "length ?P < 3" by simp
    from substringLoop_eq[OF this, of sys b names] fl
    have sl: "substringLoop sys b names ?P =
                (if 3 \<le> length (?P @ ?S) then Inl (take 3 (?P @ ?S)) else Inr (?P @ ?S))"
      by (simp add: Let_def)
    show ?thesis
      using False by (auto simp: pl sl formatSuggestions_hint rankedMatches_def)
  qed
qed

lemma suggestFiles_eq:
  "suggestFiles sys fs path =
     (case os_Glob sys fs (Join [Dir path, ''*'']) of
        None \<Rightarrow> []
      | Some entries \<Rightarrow> map hint (rankedMatches sys (Base path) (map Base entries)))"
  by (simp add: suggestFiles_def Let_def matches_eq split: option.splits)

lemma set_firstOccurrences: "set (firstOccurrences xs) = set xs"
  by (induction xs rule: firstOccurrences.induct) auto

lemma distinct_firstOccurrences: "distinct (firstOccurrences xs)"
  by (induction xs rule: firstOccurrences.induct) (auto simp: set_firstOccurrences)


lemma rankedMatches_ranked:
  "\<exists>k \<le> length (rankedMatches sys b names).
     (\<forall>i < k. prefixMatch sys b (rankedMatches sys b names ! i))
     \<and> (\<forall>i. k \<le> i \<and> i < length (rankedMatches sys b names) \<longrightarrow> \<not> prefixMatch sys b (rankedMatches sys b names ! i))"
proof -
  let ?P = "filter (prefixMatch sys b) names"
  let ?S = "firstOccurrences (filter (\<lambda>n. substringMatch sys b n \<and> \<not> prefixMatch sys b n) names)"
  let ?k = "min 3 (length ?P)"
  have len: "?k \<le> length (rankedMatches sys b names)"
    by (simp add: rankedMatches_def)
  have lower: "prefixMatch sys b (rankedMatches sys b names ! i)" if "i < ?k" for i
  proof -
    from that have "rankedMatches sys b names ! i = ?P ! i"
      by (simp add: rankedMatches_def nth_append)
    moreover from that have "i < length ?P" by simp
    from nth_mem[OF this] have "prefixMatch sys b (?P ! i)" by simp
    ultimately show ?thesis by simp
  qed
  have upper: "\<not> prefixMatch sys b (rankedMatches sys b names ! i)"
    if "?k \<le> i \<and> i < length (rankedMatches sys b names)" for i
  proof -
    from that have i3: "i < 3" and iP: "length ?P \<le> i" and iL: "i < length (?P @ ?S)"
      by (auto simp: rankedMatches_def)
    then have "rankedMatches sys b names ! i = ?S ! (i - length ?P)"
      by (simp add: rankedMatches_def nth_append)
    moreover from iP iL have "?S ! (i - length ?P) \<in> set ?S"
      by (intro nth_mem) auto
    ultimately show ?thesis by (auto simp: set_firstOccurrences)
  qed
  from len lower upper show ?thesis by blast
qed

lemma rankedMatches_properties:
  "length (rankedMatches sys b names) \<le> 3
   \<and> set (rankedMatches sys b names) \<subseteq> {n \<in> set names. substringMatch sys b n}
   \<and> (distinct names \<longrightarrow> distinct (rankedMatches sys b names))
   \<and> ((\<forall>n \<in> set names. \<not> substringMatch sys b n) \<longrightarrow> rankedMatches sys b names = [])"
proof (intro conjI)
  show "length (rankedMatches sys b names) \<le> 3"
    by (simp add: rankedMatches_def)
  have sub: "set (filter (prefixMatch sys b) names
             @ firstOccurrences (filter (\<lambda>name. substringMatch sys b name \<and> \<not> prefixMatch sys b name) names))
        \<subseteq> {n \<in> set names. substringMatch sys b n}"
    by (auto simp: set_firstOccurrences prefixMatch_substringMatch)
  show "set (rankedMatches sys b names) \<subseteq> {n \<in> set names. substringMatch sys b n}"
    unfolding rankedMatches_def using sub set_take_subset by fast
  show "distinct names \<longrightarrow> distinct (rankedMatches sys b names)"
  proof
    assume "distinct names"
    then have "distinct (filter (prefixMatch sys b) names
             @ firstOccurrences (filter (\<lambda>name. substringMatch sys b name \<and> \<not> prefixMatch sys b name) names))"
      by (auto simp: distinct_firstOccurrences set_firstOccurrences)
    then show "distinct (rankedMatches sys b names)"
      unfolding rankedMatches_def by (rule distinct_take)
  qed
  show "(\<forall>n \<in> set names. \<not> substringMatch sys b n) \<longrightarrow> rankedMatches sys b names = []"
  proof
    assume none: "\<forall>n \<in> set names. \<not> substringMatch sys b n"
    then have "filter (prefixMatch sys b) names = []"
      by (auto simp: filter_empty_conv dest: prefixMatch_substringMatch)
    moreover from none
    have "filter (\<lambda>name. substringMatch sys b name \<and> \<not> prefixMatch sys b name) names = []"
      by (auto simp: filter_empty_conv)
    ultimately show "rankedMatches sys b names = []" by (simp add: rankedMatches_def)
  qed
qed

section \<open>The sandbox\<close>

lemma splitSlash_nonempty: "splitSlash s \<noteq> []"
  by (induction s) (auto split: list.splits)

lemma splitSlash_sepfree: "e \<in> set (splitSlash s) \<Longrightarrow> Separator \<notin> set e"
  by (induction s arbitrary: e) (auto split: list.splits if_splits)

lemma splitSlash_plain: "Separator \<notin> set x \<Longrightarrow> splitSlash x = [x]"
  by (induction x) (auto split: list.splits)

lemma splitSlash_append: "Separator \<notin> set x \<Longrightarrow> splitSlash (x @ Separator # r) = x # splitSlash r"
  by (induction x) (auto split: list.splits)

lemma splitSlash_joinSlash:
  "cs \<noteq> [] \<Longrightarrow> \<forall>e \<in> set cs. Separator \<notin> set e \<Longrightarrow> splitSlash (joinSlash cs) = cs"
  by (induction cs rule: joinSlash.induct) (auto simp: splitSlash_plain splitSlash_append)

lemma splitSlash_absPath:
  "\<forall>e \<in> set cs. Separator \<notin> set e \<Longrightarrow>
   splitSlash (absPath cs) = [] # (if cs = [] then [[]] else cs)"
  by (auto simp: absPath_def splitSlash_joinSlash)

lemma isName_sepfree: "isName e \<Longrightarrow> Separator \<notin> set e"
  by (simp add: isName_def)

lemma foldl_cleanStep_names:
  "\<forall>e \<in> set cs. isName e \<Longrightarrow> foldl (cleanStep rooted) acc cs = acc @ cs"
  by (induction cs arbitrary: acc) (auto simp: cleanStep_def isName_def)

lemma cleanStep_empty [simp]: "cleanStep rooted out [] = out"
  by (simp add: cleanStep_def)

lemma IsAbs_absPath [simp]: "IsAbs (absPath cs)"
  by (simp add: IsAbs_def HasPrefix_def absPath_def)

lemma Clean_absPath: "\<forall>e \<in> set cs. isName e \<Longrightarrow> Clean (absPath cs) = absPath cs"
proof -
  assume names: "\<forall>e \<in> set cs. isName e"
  then have sf: "\<forall>e \<in> set cs. Separator \<notin> set e" by (simp add: isName_def)
  have "foldl (cleanStep True) [] (splitSlash (absPath cs)) = cs"
    using foldl_cleanStep_names[OF names, of True "[]"]
    by (simp add: splitSlash_absPath[OF sf])
  moreover have "absPath cs \<noteq> []" by (simp add: absPath_def)
  ultimately show ?thesis
    by (simp add: Clean_def Let_def) (simp add: absPath_def)
qed

lemma foldl_cleanStep_rooted_names:
  "\<forall>e \<in> set xs. Separator \<notin> set e \<Longrightarrow> \<forall>e \<in> set acc. isName e \<Longrightarrow>
   \<forall>e \<in> set (foldl (cleanStep True) acc xs). isName e"
proof (induction xs arbitrary: acc)
  case Nil
  then show ?case by simp
next
  case (Cons x xs)
  have "\<forall>e \<in> set (cleanStep True acc x). isName e"
    using Cons.prems by (auto simp: cleanStep_def isName_def dest: in_set_butlastD)
  with Cons show ?case by simp
qed

lemma Clean_abs_names:
  assumes "IsAbs path"
  shows "\<exists>cs. (\<forall>e \<in> set cs. isName e) \<and> Clean path = absPath cs"
proof -
  from assms have ne: "path \<noteq> []" by (auto simp: IsAbs_def HasPrefix_def)
  let ?out = "foldl (cleanStep True) [] (splitSlash path)"
  have "\<forall>e \<in> set ?out. isName e"
    by (rule foldl_cleanStep_rooted_names) (auto dest: splitSlash_sepfree)
  moreover have "Clean path = absPath ?out"
    using assms ne by (simp add: Clean_def Let_def absPath_def)
  ultimately show ?thesis by blast
qed

lemma canonical_iff: "canonical path \<longleftrightarrow> (\<exists>cs. (\<forall>e \<in> set cs. isName e) \<and> path = absPath cs)"
proof
  assume "canonical path"
  then show "\<exists>cs. (\<forall>e \<in> set cs. isName e) \<and> path = absPath cs"
    using Clean_abs_names[of path] by (auto simp: canonical_def)
next
  assume "\<exists>cs. (\<forall>e \<in> set cs. isName e) \<and> path = absPath cs"
  then show "canonical path" by (auto simp: canonical_def Clean_absPath)
qed

lemma canonical_Clean: "IsAbs path \<Longrightarrow> canonical (Clean path)"
  using Clean_abs_names[of path] canonical_iff by auto

lemma elements_absPath: "\<forall>e \<in> set cs. isName e \<Longrightarrow> elements (absPath cs) = cs"
proof -
  assume names: "\<forall>e \<in> set cs. isName e"
  then have sf: "\<forall>e \<in> set cs. Separator \<notin> set e" by (simp add: isName_def)
  from names have "filter (\<lambda>e. e \<noteq> []) cs = cs"
    by (auto simp: isName_def filter_id_conv)
  then show ?thesis
    by (simp add: elements_def splitSlash_absPath[OF sf])
qed


lemma skipCommon_prefix:
  "fst (skipCommon rs ts) = [] \<longleftrightarrow> prefix rs ts"
  by (induction rs ts rule: skipCommon.induct) auto

lemma skipCommon_sets:
  "set (fst (skipCommon rs ts)) \<subseteq> set rs \<and> set (snd (skipCommon rs ts)) \<subseteq> set ts"
  by (induction rs ts rule: skipCommon.induct) auto

lemma skipCommon_both_empty:
  "skipCommon rs ts = ([], []) \<Longrightarrow> rs = ts"
  by (induction rs ts rule: skipCommon.induct) (auto split: if_splits)

lemma name_not_dotdot_prefix:
  assumes "isName t"
  shows "joinSlash (t # ts) \<noteq> ''..'' \<and> \<not> prefix (''..'' @ [Separator]) (joinSlash (t # ts))"
proof (cases ts)
  case Nil
  have "\<not> prefix (''..'' @ [Separator]) t"
  proof
    assume "prefix (''..'' @ [Separator]) t"
    then have "Separator \<in> set t" by (auto simp: prefix_def)
    with assms show False by (simp add: isName_def)
  qed
  with assms Nil show ?thesis by (simp add: isName_def)
next
  case (Cons y ys)
  have j: "joinSlash (t # ts) = t @ Separator # joinSlash (y # ys)"
    using Cons by simp
  have a: "t @ Separator # joinSlash (y # ys) \<noteq> ''..''"
  proof
    assume "t @ Separator # joinSlash (y # ys) = ''..''"
    then have "Separator \<in> set ''..''" by (metis in_set_conv_decomp)
    then show False by (simp add: Separator_def)
  qed
  have b: "\<not> prefix (''..'' @ [Separator]) (t @ Separator # joinSlash (y # ys))"
  proof
    assume p: "prefix (''..'' @ [Separator]) (t @ Separator # joinSlash (y # ys))"
    from assms have sf: "Separator \<notin> set t" and nd: "t \<noteq> ''..''" and ne: "t \<noteq> []"
      by (simp_all add: isName_def)
    show False
    proof (cases t)
      case Nil
      with ne show False by simp
    next
      case (Cons a t1)
      show False
      proof (cases t1)
        case Nil
        with p Cons show False by (simp add: Separator_def)
      next
        case (Cons b t2)
        show False
        proof (cases t2)
          case Nil
          with p \<open>t = a # t1\<close> \<open>t1 = b # t2\<close> nd show False by auto
        next
          case (Cons c t3)
          with p \<open>t = a # t1\<close> \<open>t1 = b # t2\<close> sf show False by simp
        qed
      qed
    qed
  qed
  from a b j show ?thesis by simp
qed

lemma dotdots_escape:
  "joinSlash (replicate (Suc n) ''..'' @ ts) = ''..''
   \<or> prefix (''..'' @ [Separator]) (joinSlash (replicate (Suc n) ''..'' @ ts))"
  by (cases "replicate n ''..'' @ ts") auto

lemma Rel_escapes_iff:
  assumes rs: "\<forall>e \<in> set rs. isName e" and ts: "\<forall>e \<in> set ts. isName e"
  shows "escapes (Rel (absPath rs) (absPath ts)) \<longleftrightarrow> \<not> prefix rs ts"
proof (cases "ts = rs")
  case True
  then show ?thesis
    by (simp add: Rel_def Let_def escapes_def HasPrefix_def)
next
  case False
  have neq: "absPath ts \<noteq> absPath rs"
  proof
    assume "absPath ts = absPath rs"
    then have "elements (absPath ts) = elements (absPath rs)" by simp
    with rs ts False show False by (simp add: elements_absPath)
  qed
  have nodot: "absPath rs \<noteq> ''.''" by (simp add: absPath_def Separator_def)
  obtain bs tl where sc: "skipCommon rs ts = (bs, tl)" by (cases "skipCommon rs ts")
  have rel: "Rel (absPath rs) (absPath ts) =
               (case (bs, tl) of
                  (b # bs', t # ts') \<Rightarrow>
                     if b = ''..'' then None
                     else Some (joinSlash (replicate (length (b # bs')) ''..'' @ t # ts'))
                | (b # bs', []) \<Rightarrow> Some (joinSlash (replicate (length (b # bs')) ''..''))
                | ([], ts') \<Rightarrow> Some (joinSlash ts'))"
    using neq nodot sc by (simp add: Rel_def Let_def Clean_absPath rs ts elements_absPath)
  show ?thesis
  proof (cases bs)
    case Nil
    with sc have pre: "prefix rs ts" using skipCommon_prefix[of rs ts] by simp
    from Nil sc False have "tl \<noteq> []" using skipCommon_both_empty[of rs ts] by auto
    then obtain t ts' where tl: "tl = t # ts'" by (cases tl) auto
    have "t \<in> set ts" using skipCommon_sets[of rs ts] sc tl by auto
    with ts have "isName t" by simp
    from name_not_dotdot_prefix[OF this, of ts'] pre Nil tl show ?thesis
      by (simp add: rel escapes_def HasPrefix_def)
  next
    case (Cons b bs')
    with sc have npre: "\<not> prefix rs ts" using skipCommon_prefix[of rs ts] by simp
    have "escapes (Rel (absPath rs) (absPath ts))"
    proof (cases tl)
      case Nil
      with Cons dotdots_escape[of "length bs'" "[]"] show ?thesis
        by (auto simp: rel escapes_def HasPrefix_def)
    next
      case (Cons t ts')
      with \<open>bs = b # bs'\<close> dotdots_escape[of "length bs'" "t # ts'"] show ?thesis
        by (auto simp: rel escapes_def HasPrefix_def)
    qed
    with npre show ?thesis by simp
  qed
qed

lemma within_absPath:
  "\<forall>e \<in> set rs. isName e \<Longrightarrow> \<forall>e \<in> set ts. isName e \<Longrightarrow>
   within (absPath rs) (absPath ts) \<longleftrightarrow> prefix rs ts"
  by (simp add: within_def elements_absPath)

lemma escapes_iff_not_within:
  assumes "canonical root" and "canonical real"
  shows "escapes (Rel root real) \<longleftrightarrow> \<not> within root real"
proof -
  from assms obtain rs ts where "\<forall>e \<in> set rs. isName e" "root = absPath rs"
    "\<forall>e \<in> set ts. isName e" "real = absPath ts"
    by (auto simp: canonical_iff)
  then show ?thesis by (simp add: Rel_escapes_iff within_absPath)
qed


lemma walkSymlinks_names:
  "walkSymlinks fs n path dest = Some r \<Longrightarrow>
   \<forall>e \<in> set path. Separator \<notin> set e \<Longrightarrow> \<forall>e \<in> set dest. isName e \<Longrightarrow>
   \<forall>e \<in> set r. isName e"
proof (induction fs n path dest rule: walkSymlinks.induct)
  case (1 fs n dest)
  then show ?case by (simp add: walkSymlinks.simps)
next
  case (2 fs n e rest dest)
  have rest: "\<forall>e \<in> set rest. Separator \<notin> set e" using "2.prems"(2) by simp
  show ?case
  proof (cases "e = [] \<or> e = ''.''")
    case True
    with "2.prems" "2.IH"(1) rest show ?thesis by (simp add: walkSymlinks.simps)
  next
    case skip: False
    show ?thesis
    proof (cases "e = ''..''")
      case True
      have "\<forall>e \<in> set (butlast dest). isName e"
        using "2.prems"(3) by (auto dest: in_set_butlastD)
      with True skip "2.prems"(1) "2.IH"(2) rest show ?thesis
        by (simp add: walkSymlinks.simps)
    next
      case False
      have e: "isName e" using skip False "2.prems"(2) by (simp add: isName_def)
      then have dest': "\<forall>x \<in> set (dest @ [e]). isName x" using "2.prems"(3) by simp
      show ?thesis
      proof (cases "Lstat fs (dest @ [e])")
        case None
        with skip False "2.prems"(1) show ?thesis by (simp add: walkSymlinks.simps)
      next
        case (Some nd)
        show ?thesis
        proof (cases nd)
          case File
          with Some skip False "2.prems"(1) dest' show ?thesis
            by (auto simp: walkSymlinks.simps split: if_splits)
        next
          case (Directory entries)
          with Some skip False "2.prems"(1) have "walkSymlinks fs n rest (dest @ [e]) = Some r"
            by (simp add: walkSymlinks.simps)
          from "2.IH"(3)[OF skip False Some Directory this rest dest'] show ?thesis .
        next
          case (Symlink link)
          with Some skip False "2.prems"(1) have lt: "\<not> 255 \<le> n"
            and w: "walkSymlinks fs (Suc n) (splitSlash link @ rest) (if IsAbs link then [] else dest) = Some r"
            by (auto simp: walkSymlinks.simps split: if_splits)
          have p: "\<forall>e \<in> set (splitSlash link @ rest). Separator \<notin> set e"
            using rest by (auto dest: splitSlash_sepfree)
          have d: "\<forall>e \<in> set (if IsAbs link then [] else dest). isName e"
            using "2.prems"(3) by simp
          from "2.IH"(4)[OF skip False Some Symlink lt w p d] show ?thesis .
        qed
      qed
    qed
  qed
qed

lemma EvalSymlinks_canonical: "EvalSymlinks fs path = Some real \<Longrightarrow> canonical real"
proof -
  assume "EvalSymlinks fs path = Some real"
  then obtain r where w: "walkSymlinks fs 0 (splitSlash path) [] = Some r"
    and real: "real = absPath r"
    by (auto simp: EvalSymlinks_def absPath_def split: if_splits)
  have "\<forall>e \<in> set r. isName e"
    by (rule walkSymlinks_names[OF w]) (auto dest: splitSlash_sepfree)
  with real show ?thesis by (auto simp: canonical_iff)
qed

lemma IsAbs_nonempty: "IsAbs path \<Longrightarrow> path \<noteq> []"
  by (auto simp: IsAbs_def HasPrefix_def)

lemma Join2_abs: "IsAbs p \<Longrightarrow> Join [p, b] = Clean (p @ Separator # b)"
  by (auto simp: Join_def dest: IsAbs_nonempty)

lemma IsAbs_append: "IsAbs p \<Longrightarrow> IsAbs (p @ q)"
  by (auto simp: IsAbs_def HasPrefix_def prefix_def)

lemma canonical_Join: "IsAbs p \<Longrightarrow> canonical (Join [p, b])"
  by (simp add: Join2_abs canonical_Clean IsAbs_append)

lemma canonical_IsAbs: "canonical p \<Longrightarrow> IsAbs p"
  by (simp add: canonical_def)

lemma Abs_canonical: "Abs sys path = Inr c \<Longrightarrow> canonical c"
  by (auto simp: Abs_def canonical_Clean canonical_Join IsAbs_def HasPrefix_def
           split: if_splits sum.splits)

lemma symlinkProtection_canonical:
  "symlinkProtection sys fs userPath cand access = Inr real \<Longrightarrow> canonical real"
  by (auto simp: symlinkProtection_def Let_def
           intro: EvalSymlinks_canonical
           intro!: canonical_Join dest!: EvalSymlinks_canonical canonical_IsAbs
           split: if_splits option.splits)

lemma Resolve_unfold:
  "Resolve sys fs s userPath access =
     (if TrimSpace userPath = []
      then Inl \<lparr>Code = ''invalid_argument'', Message = ''path cannot be empty'', Suggestions = []\<rparr>
      else case candidateOf sys s userPath of
             Inl err \<Rightarrow>
               Inl \<lparr>Code = ''invalid_argument'', Message = ''failed to resolve path: '' @ err,
                    Suggestions = []\<rparr>
           | Inr candidateAbs \<Rightarrow>
               (case symlinkProtection sys fs userPath candidateAbs access of
                  Inl rejection \<Rightarrow> Inl rejection
                | Inr candidateReal \<Rightarrow>
                    if escapes (Rel (Root s) candidateReal)
                    then Inl \<lparr>Code = ''permission_denied'',
                              Message = ''path escapes project root: '' @ userPath,
                              Suggestions =
                                [''Use a relative path under the project root (e.g., ''
                                 @ [CHR 0x27] @ ''./subdir/file.txt'' @ [CHR 0x27] @ '')'']\<rparr>
                    else Inr candidateReal))"
  unfolding Resolve_def candidateOf_def escapes_def Let_def
  by (simp split: sum.splits)

lemma Resolve_success:
  assumes "canonical (Root s)" and "Resolve sys fs s userPath access = Inr real"
  shows "canonical real \<and> within (Root s) real"
proof -
  from assms(2) obtain cand where sp: "symlinkProtection sys fs userPath cand access = Inr real"
    and ne: "\<not> escapes (Rel (Root s) real)"
    by (auto simp: Resolve_unfold split: if_splits sum.splits)
  from sp have c: "canonical real" by (rule symlinkProtection_canonical)
  with ne assms(1) show ?thesis by (simp add: escapes_iff_not_within)
qed

subsection \<open>Containment\<close>

lemma skipCommon_append: "skipCommon rs (rs @ rest) = ([], rest)"
  by (induction rs) (cases rest, auto)

lemma Rel_inside:
  assumes rs: "\<forall>e \<in> set rs. isName e" and ts: "\<forall>e \<in> set (t # ts'). isName e"
  shows "Rel (absPath rs) (absPath (rs @ t # ts')) = Some (joinSlash (t # ts'))"
proof -
  have all: "\<forall>e \<in> set (rs @ t # ts'). isName e" using rs ts by auto
  have neq: "absPath (rs @ t # ts') \<noteq> absPath rs"
  proof
    assume "absPath (rs @ t # ts') = absPath rs"
    then have "elements (absPath (rs @ t # ts')) = elements (absPath rs)" by simp
    then show False using elements_absPath[OF all] elements_absPath[OF rs] by simp
  qed
  have nodot: "absPath rs \<noteq> ''.''" by (simp add: absPath_def Separator_def)
  show ?thesis
    using neq nodot
    by (simp add: Rel_def Let_def Clean_absPath[OF all] Clean_absPath[OF rs]
                  elements_absPath[OF all] elements_absPath[OF rs] skipCommon_append
             del: joinSlash.simps)
qed

text \<open>
  C9. The containment check rejects only real escapes. When the resolved candidate lies
  inside the root, so that its elements are those of the root followed by a segment and
  the rest, the relative path is that segment and the rest, it does not count as an
  escape, and \<open>Resolve\<close> returns the path. This holds for every segment a canonical
  path can have, in particular for a longer name that begins with two dots such as
  \<open>..cache\<close>.
\<close>

theorem dotdot_named_entries_not_rejected:
  assumes "canonical (Root s)"
    and "TrimSpace userPath \<noteq> []"
    and "candidateOf sys s userPath = Inr cand"
    and "symlinkProtection sys fs userPath cand access = Inr real"
    and "elements real = elements (Root s) @ seg # rest"
  shows "Rel (Root s) real = Some (joinSlash (seg # rest))
         \<and> \<not> escapes (Rel (Root s) real)
         \<and> Resolve sys fs s userPath access = Inr real"
proof -
  from assms(1) obtain rs where rs: "\<forall>e \<in> set rs. isName e" and root: "Root s = absPath rs"
    by (auto simp: canonical_iff)
  from assms(4) have "canonical real" by (rule symlinkProtection_canonical)
  then obtain ts where ts: "\<forall>e \<in> set ts. isName e" and real: "real = absPath ts"
    by (auto simp: canonical_iff)
  from assms(5) have ts_eq: "ts = rs @ seg # rest"
    by (simp add: root real elements_absPath rs ts)
  with ts have tl: "\<forall>e \<in> set (seg # rest). isName e" by auto
  have rel: "Rel (Root s) real = Some (joinSlash (seg # rest))"
    unfolding root real ts_eq by (rule Rel_inside[OF rs tl])
  have ne: "\<not> escapes (Rel (Root s) real)"
    unfolding root real using Rel_escapes_iff[OF rs ts] ts_eq by simp
  from assms(2,3,4) ne have "Resolve sys fs s userPath access = Inr real"
    by (simp add: Resolve_unfold)
  with rel ne show ?thesis by simp
qed

theorem dotdot_named_entries_not_rejected_witness:
  "Rel ''/ws'' ''/ws/..cache/file'' = Some ''..cache/file''
   \<and> Resolve example_os [(''ws'', Directory [(''..cache'', Directory [(''file'', File)])])]
        \<lparr>Root = ''/ws''\<rparr> ''..cache/file'' AccessReadFile = Inr ''/ws/..cache/file''"
proof -
  let ?fs = "[(''ws'', Directory [(''..cache'', Directory [(''file'', File)])])]"
  have h1: "canonical (Root \<lparr>Root = ''/ws''\<rparr>)" by code_simp
  have h2: "TrimSpace ''..cache/file'' \<noteq> []" by code_simp
  have h3: "candidateOf example_os \<lparr>Root = ''/ws''\<rparr> ''..cache/file'' = Inr ''/ws/..cache/file''"
    by code_simp
  have h4: "symlinkProtection example_os ?fs ''..cache/file'' ''/ws/..cache/file'' AccessReadFile
            = Inr ''/ws/..cache/file''"
    by code_simp
  have h5: "elements ''/ws/..cache/file'' = elements (Root \<lparr>Root = ''/ws''\<rparr>) @ ''..cache'' # [''file'']"
    by code_simp
  from dotdot_named_entries_not_rejected[OF h1 h2 h3 h4 h5]
  show ?thesis by (simp add: Separator_def)
qed

text \<open>
  C2. With root \<open>/ws\<close> and no file \<open>/secret.txt\<close>, reading \<open>../secret.txt\<close> is rejected
  with \<open>not_found\<close>, not with \<open>permission_denied\<close>: symbolic links are resolved (step 4)
  before containment is checked (step 5).
\<close>

theorem escape_to_missing_file_is_not_found:
  "Resolve example_os [(''ws'', Directory [])] \<lparr>Root = ''/ws''\<rparr> ''../secret.txt'' AccessReadFile
   = Inl \<lparr>Code = ''not_found'', Message = ''path not found: ../secret.txt'', Suggestions = []\<rparr>"
  by code_simp

text \<open>
  C2 as amended. Whenever step 4 yields a real path outside the root, for any access
  kind and any user path, \<open>Resolve\<close> returns \<open>permission_denied\<close>; this is so in particular
  when the candidate itself resolves. When the candidate does not resolve, a read or
  list request is rejected with \<open>not_found\<close>.
\<close>

theorem escape_after_resolution_denied:
  assumes "canonical (Root s)"
    and "TrimSpace userPath \<noteq> []"
    and "candidateOf sys s userPath = Inr cand"
  shows "(symlinkProtection sys fs userPath cand access = Inr real \<and> \<not> within (Root s) real
            \<longrightarrow> (\<exists>e. Resolve sys fs s userPath access = Inl e \<and> Code e = ''permission_denied''))
         \<and> (EvalSymlinks fs cand = Some real \<and> \<not> within (Root s) real
            \<longrightarrow> (\<exists>e. Resolve sys fs s userPath access = Inl e \<and> Code e = ''permission_denied''))
         \<and> (EvalSymlinks fs cand = None \<and> access \<noteq> AccessWriteFile
            \<longrightarrow> (\<exists>e. Resolve sys fs s userPath access = Inl e \<and> Code e = ''not_found''))"
proof (intro conjI impI)
  assume h: "symlinkProtection sys fs userPath cand access = Inr real \<and> \<not> within (Root s) real"
  then have "canonical real" by (auto intro: symlinkProtection_canonical)
  with h assms(1) have "escapes (Rel (Root s) real)" by (simp add: escapes_iff_not_within)
  with h assms(2,3)
  show "\<exists>e. Resolve sys fs s userPath access = Inl e \<and> Code e = ''permission_denied''"
    by (simp add: Resolve_unfold)
next
  assume h: "EvalSymlinks fs cand = Some real \<and> \<not> within (Root s) real"
  then have sp: "symlinkProtection sys fs userPath cand access = Inr real"
    by (simp add: symlinkProtection_def)
  from h have "canonical real" by (auto intro: EvalSymlinks_canonical)
  with h assms(1) have "escapes (Rel (Root s) real)" by (simp add: escapes_iff_not_within)
  with sp assms(2,3)
  show "\<exists>e. Resolve sys fs s userPath access = Inl e \<and> Code e = ''permission_denied''"
    by (simp add: Resolve_unfold)
next
  assume h: "EvalSymlinks fs cand = None \<and> access \<noteq> AccessWriteFile"
  then have "access = AccessReadFile \<or> access = AccessListDir" by (cases access) auto
  with h have "symlinkProtection sys fs userPath cand access
        = Inl \<lparr>Code = ''not_found'', Message = ''path not found: '' @ userPath,
               Suggestions = suggestFiles sys fs cand\<rparr>"
    by (auto simp: symlinkProtection_def)
  with assms(2,3)
  show "\<exists>e. Resolve sys fs s userPath access = Inl e \<and> Code e = ''not_found''"
    by (simp add: Resolve_unfold)
qed

theorem escape_after_resolution_denied_witness:
  "Resolve example_os [(''ws'', Directory []), (''secret.txt'', File)] \<lparr>Root = ''/ws''\<rparr>
     ''../secret.txt'' AccessReadFile
   = Inl \<lparr>Code = ''permission_denied'', Message = ''path escapes project root: ../secret.txt'',
          Suggestions = [''Use a relative path under the project root (e.g., ''
                         @ [CHR 0x27] @ ''./subdir/file.txt'' @ [CHR 0x27] @ '')'']\<rparr>"
proof -
  let ?fs = "[(''ws'', Directory []), (''secret.txt'', File)]"
  have h1: "canonical (Root \<lparr>Root = ''/ws''\<rparr>)" by code_simp
  have h2: "TrimSpace ''../secret.txt'' \<noteq> []" by code_simp
  have h3: "candidateOf example_os \<lparr>Root = ''/ws''\<rparr> ''../secret.txt'' = Inr ''/secret.txt''"
    by code_simp
  have h4: "EvalSymlinks ?fs ''/secret.txt'' = Some ''/secret.txt''
            \<and> \<not> within (Root \<lparr>Root = ''/ws''\<rparr>) ''/secret.txt''"
    by code_simp
  from escape_after_resolution_denied
         [OF h1 h2 h3, where fs = ?fs and real = "''/secret.txt''" and access = AccessReadFile,
          THEN conjunct2, THEN conjunct1] h4
  obtain e where e: "Resolve example_os ?fs \<lparr>Root = ''/ws''\<rparr> ''../secret.txt'' AccessReadFile = Inl e"
    and c: "Code e = ''permission_denied''"
    by blast
  have "Resolve example_os ?fs \<lparr>Root = ''/ws''\<rparr> ''../secret.txt'' AccessReadFile
        = Inl \<lparr>Code = ''permission_denied'', Message = ''path escapes project root: ../secret.txt'',
          Suggestions = [''Use a relative path under the project root (e.g., ''
                         @ [CHR 0x27] @ ''./subdir/file.txt'' @ [CHR 0x27] @ '')'']\<rparr>"
    by code_simp
  with e c show ?thesis by simp
qed



subsection \<open>Writing a new file\<close>

text \<open>
  Facts about \<open>Lstat\<close>, \<open>EvalSymlinks\<close> and the lexical functions on a path and its last
  element, for the branch of \<open>Resolve\<close> that resolves the parent of a missing write target.
\<close>

lemma lookup_parent:
  "lookup n (p @ [x]) = Some c \<Longrightarrow> \<exists>entries. lookup n p = Some (Directory entries)"
proof (induction p arbitrary: n)
  case Nil
  then show ?case by (cases n) auto
next
  case (Cons y p)
  then show ?case by (cases n) (auto split: option.splits)
qed

lemma Lstat_parent:
  "Lstat fs (p @ [x]) = Some c \<Longrightarrow> \<exists>entries. Lstat fs p = Some (Directory entries)"
  unfolding Lstat_def by (rule lookup_parent)

lemma Lstat_butlast:
  "Lstat fs dest = Some (Directory entries) \<Longrightarrow> \<exists>entries'. Lstat fs (butlast dest) = Some (Directory entries')"
proof (cases dest rule: rev_cases)
  case Nil
  assume "Lstat fs dest = Some (Directory entries)"
  with Nil show ?thesis by simp
next
  case (snoc p x)
  assume "Lstat fs dest = Some (Directory entries)"
  with snoc show ?thesis using Lstat_parent[of fs p x] by simp
qed

lemma Lstat_root: "Lstat fs [] = Some (Directory fs)"
  by (simp add: Lstat_def)

lemma walkSymlinks_real:
  "walkSymlinks fs n path dest = Some r \<Longrightarrow>
   \<exists>entries. Lstat fs dest = Some (Directory entries) \<Longrightarrow> realPath fs r"
proof (induction fs n path dest rule: walkSymlinks.induct)
  case (1 fs n dest)
  then show ?case by (auto simp: walkSymlinks.simps realPath_def)
next
  case (2 fs n e rest dest)
  show ?case
  proof (cases "e = [] \<or> e = ''.''")
    case True
    with "2.prems" "2.IH"(1) show ?thesis by (simp add: walkSymlinks.simps)
  next
    case skip: False
    show ?thesis
    proof (cases "e = ''..''")
      case True
      from "2.prems"(2) have "\<exists>entries. Lstat fs (butlast dest) = Some (Directory entries)"
        by (auto dest: Lstat_butlast)
      with True skip "2.prems"(1) "2.IH"(2) show ?thesis
        by (simp add: walkSymlinks.simps)
    next
      case False
      show ?thesis
      proof (cases "Lstat fs (dest @ [e])")
        case None
        with skip False "2.prems"(1) show ?thesis by (simp add: walkSymlinks.simps)
      next
        case (Some nd)
        show ?thesis
        proof (cases nd)
          case File
          with Some skip False "2.prems"(1) show ?thesis
            by (auto simp: walkSymlinks.simps realPath_def split: if_splits)
        next
          case (Directory entries)
          with Some skip False "2.prems"(1) have "walkSymlinks fs n rest (dest @ [e]) = Some r"
            by (simp add: walkSymlinks.simps)
          moreover have "\<exists>entries. Lstat fs (dest @ [e]) = Some (Directory entries)"
            using Some Directory by simp
          ultimately show ?thesis using "2.IH"(3)[OF skip False Some Directory] by blast
        next
          case (Symlink link)
          with Some skip False "2.prems"(1) have lt: "\<not> 255 \<le> n"
            and w: "walkSymlinks fs (Suc n) (splitSlash link @ rest) (if IsAbs link then [] else dest) = Some r"
            by (auto simp: walkSymlinks.simps split: if_splits)
          have d: "\<exists>entries. Lstat fs (if IsAbs link then [] else dest) = Some (Directory entries)"
            using "2.prems"(2) by (simp add: Lstat_root)
          from "2.IH"(4)[OF skip False Some Symlink lt w d] show ?thesis .
        qed
      qed
    qed
  qed
qed

lemma EvalSymlinks_real:
  "EvalSymlinks fs path = Some real \<Longrightarrow> realPath fs (elements real)"
proof -
  assume ev: "EvalSymlinks fs path = Some real"
  then obtain r where w: "walkSymlinks fs 0 (splitSlash path) [] = Some r"
    and real: "real = absPath r"
    by (auto simp: EvalSymlinks_def absPath_def split: if_splits)
  have names: "\<forall>e \<in> set r. isName e"
    by (rule walkSymlinks_names[OF w]) (auto dest: splitSlash_sepfree)
  have "realPath fs r"
    by (rule walkSymlinks_real[OF w]) (simp add: Lstat_root)
  with real names show ?thesis by (simp add: elements_absPath)
qed

lemma walkSymlinks_snoc:
  "walkSymlinks fs n path dest = Some p \<Longrightarrow> isName b \<Longrightarrow> realPath fs (p @ [b]) \<Longrightarrow>
   walkSymlinks fs n (path @ [b]) dest = Some (p @ [b])"
proof (induction fs n path dest rule: walkSymlinks.induct)
  case (1 fs n dest)
  then show ?case
    by (auto simp: walkSymlinks.simps realPath_def isName_def split: option.splits node.splits)
next
  case (2 fs n e rest dest)
  show ?case
  proof (cases "e = [] \<or> e = ''.''")
    case True
    with "2.prems" "2.IH"(1) show ?thesis by (simp add: walkSymlinks.simps)
  next
    case skip: False
    show ?thesis
    proof (cases "e = ''..''")
      case True
      with skip "2.prems" "2.IH"(2) show ?thesis by (simp add: walkSymlinks.simps)
    next
      case False
      show ?thesis
      proof (cases "Lstat fs (dest @ [e])")
        case None
        with skip False "2.prems"(1) show ?thesis by (simp add: walkSymlinks.simps)
      next
        case (Some nd)
        show ?thesis
        proof (cases nd)
          case File
          with Some skip False "2.prems"(1) have p: "p = dest @ [e]"
            by (auto simp: walkSymlinks.simps split: if_splits)
          from "2.prems"(3) obtain c where "Lstat fs (p @ [b]) = Some c"
            by (auto simp: realPath_def split: option.splits)
          then obtain entries where "Lstat fs p = Some (Directory entries)"
            using Lstat_parent by blast
          with p Some File show ?thesis by simp
        next
          case (Directory entries)
          with Some skip False "2.prems"(1) have "walkSymlinks fs n rest (dest @ [e]) = Some p"
            by (simp add: walkSymlinks.simps)
          from "2.IH"(3)[OF skip False Some Directory this "2.prems"(2,3)]
          show ?thesis using Some Directory skip False by (simp add: walkSymlinks.simps)
        next
          case (Symlink link)
          with Some skip False "2.prems"(1) have lt: "\<not> 255 \<le> n"
            and w: "walkSymlinks fs (Suc n) (splitSlash link @ rest) (if IsAbs link then [] else dest) = Some p"
            by (auto simp: walkSymlinks.simps split: if_splits)
          from "2.IH"(4)[OF skip False Some Symlink lt w "2.prems"(2,3)]
          show ?thesis using Some Symlink skip False lt by (simp add: walkSymlinks.simps)
        qed
      qed
    qed
  qed
qed


lemma splitSlash_sep_append: "splitSlash (x @ Separator # r) = splitSlash x @ splitSlash r"
proof (induction x)
  case Nil
  show ?case by simp
next
  case (Cons c x)
  obtain y ys where "splitSlash x = y # ys"
    using splitSlash_nonempty[of x] by (cases "splitSlash x") auto
  with Cons show ?case by simp
qed

lemma foldl_cleanStep_names_empties:
  "\<forall>e \<in> set xs. e = [] \<or> isName e \<Longrightarrow>
   foldl (cleanStep rooted) acc xs = acc @ filter (\<lambda>e. e \<noteq> []) xs"
  by (induction xs arbitrary: acc) (auto simp: cleanStep_def isName_def)

lemma absPath_snoc:
  "absPath (cs @ [b]) = (if cs = [] then [] else absPath cs) @ Separator # b"
  by (induction cs rule: joinSlash.induct) (auto simp: absPath_def)

lemma takeWhile_sepfree:
  "Separator \<notin> set x \<Longrightarrow> takeWhile (\<lambda>c. c \<noteq> Separator) (x @ Separator # r) = x"
  by (induction x) auto

lemma dropWhile_sepfree:
  "Separator \<notin> set x \<Longrightarrow> dropWhile (\<lambda>c. c \<noteq> Separator) (x @ Separator # r) = Separator # r"
  by (induction x) auto

lemma Base_snoc:
  assumes "isName b"
  shows "Base (pre @ Separator # b) = b"
proof -
  from assms have ne: "b \<noteq> []" and sf: "Separator \<notin> set b" by (simp_all add: isName_def)
  from ne sf have l: "hd (rev b) \<noteq> Separator"
    by (metis hd_rev last_in_set)
  from ne have rb: "rev b \<noteq> []" by simp
  have d: "dropWhile (\<lambda>c. c = Separator) (rev b @ Separator # rev pre) = rev b @ Separator # rev pre"
    using l rb by (cases "rev b") auto
  have t: "takeWhile (\<lambda>c. c \<noteq> Separator) (rev b @ Separator # rev pre) = rev b"
    using sf by (simp add: takeWhile_sepfree)
  show ?thesis using ne d t by (simp add: Base_def Let_def)
qed

lemma Dir_snoc:
  assumes "isName b"
  shows "Dir (pre @ Separator # b) = Clean (pre @ [Separator])"
proof -
  from assms have sf: "Separator \<notin> set b" by (simp add: isName_def)
  have "dropWhile (\<lambda>c. c \<noteq> Separator) (rev b @ Separator # rev pre) = Separator # rev pre"
    using sf by (simp add: dropWhile_sepfree)
  then show ?thesis by (simp add: Dir_def)
qed

lemma Clean_absPath_slash:
  assumes "\<forall>e \<in> set cs. isName e"
  shows "Clean ((if cs = [] then [] else absPath cs) @ [Separator]) = absPath cs"
proof (cases "cs = []")
  case True
  then show ?thesis
    by (simp add: Clean_def Let_def IsAbs_def HasPrefix_def absPath_def cleanStep_def)
next
  case False
  from assms have sf: "\<forall>e \<in> set cs. Separator \<notin> set e" by (simp add: isName_def)
  have sp: "splitSlash (absPath cs @ [Separator]) = [] # cs @ [[]]"
    using splitSlash_sep_append[of "absPath cs" "[]"] splitSlash_absPath[OF sf] False by simp
  have "foldl (cleanStep True) [] ([] # cs @ [[]]) = cs"
    using assms foldl_cleanStep_names_empties[of "[] # cs @ [[]]" True "[]"]
    by (auto simp: isName_def filter_id_conv)
  with sp False show ?thesis
    by (simp add: Clean_def Let_def IsAbs_append absPath_def[of cs, symmetric])
qed

lemma Dir_absPath_snoc:
  "\<forall>e \<in> set cs. isName e \<Longrightarrow> isName b \<Longrightarrow> Dir (absPath (cs @ [b])) = absPath cs"
  by (simp add: absPath_snoc Dir_snoc Clean_absPath_slash del: append_assoc)

lemma Base_absPath_snoc:
  "isName b \<Longrightarrow> Base (absPath (cs @ [b])) = b"
  by (simp add: absPath_snoc Base_snoc del: append_assoc)

lemma Join_absPath:
  assumes "\<forall>e \<in> set p. isName e" and "isName b"
  shows "Join [absPath p, b] = absPath (p @ [b])"
proof -
  from assms have sf: "\<forall>e \<in> set p. Separator \<notin> set e" and sb: "Separator \<notin> set b"
    by (simp_all add: isName_def)
  have sp: "splitSlash (absPath p @ Separator # b) = ([] # (if p = [] then [[]] else p)) @ [b]"
    using splitSlash_sep_append[of "absPath p" b] splitSlash_absPath[OF sf] splitSlash_plain[OF sb]
    by simp
  have "foldl (cleanStep True) [] (([] # (if p = [] then [[]] else p)) @ [b]) = p @ [b]"
    using assms foldl_cleanStep_names_empties[of "([] # (if p = [] then [[]] else p)) @ [b]" True "[]"]
    by (auto simp: isName_def filter_id_conv)
  with sp have "Clean (absPath p @ Separator # b) = absPath (p @ [b])"
    by (simp add: Clean_def Let_def IsAbs_append) (simp add: absPath_def)
  then show ?thesis by (simp add: Join2_abs)
qed

lemma walkSymlinks_skip_empty: "walkSymlinks fs n ([] # path) dest = walkSymlinks fs n path dest"
  by (simp add: walkSymlinks.simps)

lemma EvalSymlinks_root: "EvalSymlinks fs (absPath []) = Some (absPath [])"
  by (simp add: EvalSymlinks_def absPath_def walkSymlinks.simps IsAbs_def HasPrefix_def)

lemma EvalSymlinks_absPath:
  "\<forall>e \<in> set cs. isName e \<Longrightarrow>
   EvalSymlinks fs (absPath cs) = map_option absPath (walkSymlinks fs 0 cs [])"
proof -
  assume "\<forall>e \<in> set cs. isName e"
  then have sf: "\<forall>e \<in> set cs. Separator \<notin> set e" by (simp add: isName_def)
  have "walkSymlinks fs 0 (splitSlash (absPath cs)) [] = walkSymlinks fs 0 cs []"
    by (simp add: splitSlash_absPath[OF sf] walkSymlinks_skip_empty)
  moreover have "absPath = (\<lambda>dest. Separator # joinSlash dest)"
    by (rule ext) (simp add: absPath_def)
  ultimately show ?thesis
    by (simp add: EvalSymlinks_def)
qed

lemma new_file_under_real_parent:
  assumes cs: "\<forall>e \<in> set (cs @ [b]). isName e"
    and parent: "EvalSymlinks fs (absPath cs) = Some (absPath p)"
    and p: "\<forall>e \<in> set p. isName e"
    and real: "realPath fs (p @ [b])"
  shows "EvalSymlinks fs (absPath (cs @ [b])) = Some (absPath (p @ [b]))"
proof -
  from cs have c: "\<forall>e \<in> set cs. isName e" and b: "isName b" by auto
  from parent obtain q where w: "walkSymlinks fs 0 cs [] = Some q" and q: "absPath q = absPath p"
    by (auto simp: EvalSymlinks_absPath[OF c])
  have qn: "\<forall>e \<in> set q. isName e"
    by (rule walkSymlinks_names[OF w]) (use c in \<open>auto simp: isName_def\<close>)
  from q have "elements (absPath q) = elements (absPath p)" by simp
  then have "q = p" by (simp add: elements_absPath qn p)
  with w have "walkSymlinks fs 0 (cs @ [b]) [] = Some (p @ [b])"
    using walkSymlinks_snoc[OF _ b real] by simp
  then show ?thesis by (simp add: EvalSymlinks_absPath[OF cs])
qed


lemma candidateOf_canonical: "candidateOf sys s userPath = Inr cand \<Longrightarrow> canonical cand"
  by (auto simp: candidateOf_def Let_def intro: Abs_canonical)

lemma prefix_snoc_not_prefix:
  "prefix rs (p @ [b]) \<Longrightarrow> \<not> prefix rs p \<Longrightarrow> rs = p @ [b]"
  by (auto simp: prefix_snoc)

lemma outside_parent_outside_child:
  assumes root: "EvalSymlinks fs root = Some root"
    and cand: "canonical cand"
    and missing: "EvalSymlinks fs cand = None"
    and parent: "EvalSymlinks fs (Dir cand) = Some parentReal"
    and outside: "\<not> within root parentReal"
  shows "\<not> within root (Join [parentReal, Base cand])"
proof
  assume inside: "within root (Join [parentReal, Base cand])"
  from root have croot: "canonical root" by (rule EvalSymlinks_canonical)
  then obtain rs where rs: "\<forall>e \<in> set rs. isName e" and rootp: "root = absPath rs"
    by (auto simp: canonical_iff)
  from cand obtain cs' where cs': "\<forall>e \<in> set cs'. isName e" and candp: "cand = absPath cs'"
    by (auto simp: canonical_iff)
  have "cs' \<noteq> []"
  proof
    assume "cs' = []"
    with candp missing show False by (simp add: EvalSymlinks_root)
  qed
  then obtain cs b where snoc: "cs' = cs @ [b]" by (cases cs' rule: rev_cases) auto
  with cs' have cs: "\<forall>e \<in> set cs. isName e" and b: "isName b" by auto
  have dir: "Dir cand = absPath cs" and base: "Base cand = b"
    using candp snoc cs b by (simp_all add: Dir_absPath_snoc Base_absPath_snoc)
  from parent have "canonical parentReal" by (rule EvalSymlinks_canonical)
  then obtain p where p: "\<forall>e \<in> set p. isName e" and parp: "parentReal = absPath p"
    by (auto simp: canonical_iff)
  have join: "Join [parentReal, Base cand] = absPath (p @ [b])"
    using parp base p b by (simp add: Join_absPath)
  have pb: "\<forall>e \<in> set (p @ [b]). isName e" using p b by simp
  from inside have "prefix rs (p @ [b])"
    by (simp add: join rootp within_absPath[OF rs pb])
  moreover from outside have "\<not> prefix rs p"
    by (simp add: parp rootp within_absPath[OF rs p])
  ultimately have eq: "rs = p @ [b]" by (rule prefix_snoc_not_prefix)
  from EvalSymlinks_real[OF root] have "realPath fs (p @ [b])"
    using elements_absPath[OF rs] by (simp add: rootp eq)
  from new_file_under_real_parent[OF _ _ p this, of cs] cs' snoc parent dir parp
  have "EvalSymlinks fs (absPath (cs @ [b])) = Some (absPath (p @ [b]))" by simp
  with missing candp snoc show False by simp
qed

text \<open>
  C3. Take a write request whose candidate does not resolve, in a sandbox whose root is
  its own real path. When the parent directory resolves to a real path outside the root
  (it is, or lies behind, a symbolic link that points outside), \<open>Resolve\<close> rejects the
  request with \<open>permission_denied\<close>. Whenever the parent resolves, the write target is
  the real parent joined with the last element of the candidate, and it is returned
  exactly when it lies inside the root; when the parent does not resolve the request
  is rejected with \<open>not_found\<close>. A path that \<open>Resolve\<close> returns for a write lies inside
  the root.
\<close>

theorem new_file_checked_through_real_parent:
  assumes "EvalSymlinks fs (Root s) = Some (Root s)"
    and "TrimSpace userPath \<noteq> []"
    and "candidateOf sys s userPath = Inr cand"
    and "EvalSymlinks fs cand = None"
  shows "(EvalSymlinks fs (Dir cand) = Some parentReal \<and> \<not> within (Root s) parentReal
            \<longrightarrow> Resolve sys fs s userPath AccessWriteFile
                = Inl \<lparr>Code = ''permission_denied'',
                       Message = ''path escapes project root: '' @ userPath,
                       Suggestions = [''Use a relative path under the project root (e.g., ''
                                      @ [CHR 0x27] @ ''./subdir/file.txt'' @ [CHR 0x27] @ '')'']\<rparr>)
         \<and> (EvalSymlinks fs (Dir cand) = Some parentReal
            \<longrightarrow> Resolve sys fs s userPath AccessWriteFile
                = (if within (Root s) (Join [parentReal, Base cand])
                   then Inr (Join [parentReal, Base cand])
                   else Inl \<lparr>Code = ''permission_denied'',
                             Message = ''path escapes project root: '' @ userPath,
                             Suggestions = [''Use a relative path under the project root (e.g., ''
                                            @ [CHR 0x27] @ ''./subdir/file.txt'' @ [CHR 0x27] @ '')'']\<rparr>))
         \<and> (EvalSymlinks fs (Dir cand) = None
            \<longrightarrow> Resolve sys fs s userPath AccessWriteFile
                = Inl \<lparr>Code = ''not_found'',
                       Message = ''parent directory not found: '' @ Dir userPath,
                       Suggestions = suggestFiles sys fs (Dir cand)\<rparr>)
         \<and> (Resolve sys fs s userPath AccessWriteFile = Inr real \<longrightarrow> within (Root s) real)"
proof -
  from assms(1) have croot: "canonical (Root s)" by (rule EvalSymlinks_canonical)
  from assms(3) have ccand: "canonical cand" by (rule candidateOf_canonical)
  have second: "Resolve sys fs s userPath AccessWriteFile
                = (if within (Root s) (Join [parentReal, Base cand])
                   then Inr (Join [parentReal, Base cand])
                   else Inl \<lparr>Code = ''permission_denied'',
                             Message = ''path escapes project root: '' @ userPath,
                             Suggestions = [''Use a relative path under the project root (e.g., ''
                                            @ [CHR 0x27] @ ''./subdir/file.txt'' @ [CHR 0x27] @ '')'']\<rparr>)"
    if par: "EvalSymlinks fs (Dir cand) = Some parentReal" for parentReal
  proof -
    have sp: "symlinkProtection sys fs userPath cand AccessWriteFile
              = Inr (Join [parentReal, Base cand])"
      using assms(4) par by (simp add: symlinkProtection_def Let_def)
    from par have "IsAbs parentReal"
      by (auto dest: EvalSymlinks_canonical canonical_IsAbs)
    then have "canonical (Join [parentReal, Base cand])" by (rule canonical_Join)
    with croot have "escapes (Rel (Root s) (Join [parentReal, Base cand]))
                     \<longleftrightarrow> \<not> within (Root s) (Join [parentReal, Base cand])"
      by (rule escapes_iff_not_within)
    with sp assms(2,3) show ?thesis by (simp add: Resolve_unfold)
  qed
  have first: "Resolve sys fs s userPath AccessWriteFile
                = Inl \<lparr>Code = ''permission_denied'',
                       Message = ''path escapes project root: '' @ userPath,
                       Suggestions = [''Use a relative path under the project root (e.g., ''
                                      @ [CHR 0x27] @ ''./subdir/file.txt'' @ [CHR 0x27] @ '')'']\<rparr>"
    if "EvalSymlinks fs (Dir cand) = Some parentReal \<and> \<not> within (Root s) parentReal"
    using that second[of parentReal]
      outside_parent_outside_child[OF assms(1) ccand assms(4), of parentReal]
    by simp
  have third: "Resolve sys fs s userPath AccessWriteFile
                = Inl \<lparr>Code = ''not_found'',
                       Message = ''parent directory not found: '' @ Dir userPath,
                       Suggestions = suggestFiles sys fs (Dir cand)\<rparr>"
    if "EvalSymlinks fs (Dir cand) = None"
    using that assms(2,3,4) by (simp add: Resolve_unfold symlinkProtection_def Let_def)
  have fourth: "within (Root s) real" if "Resolve sys fs s userPath AccessWriteFile = Inr real"
    using Resolve_success[OF croot that] by simp
  from first second third fourth show ?thesis by blast
qed

theorem new_file_checked_through_real_parent_witness:
  "Resolve example_os [(''ws'', Directory [(''out'', Symlink ''/outside'')]), (''outside'', Directory [])]
     \<lparr>Root = ''/ws''\<rparr> ''out/new.txt'' AccessWriteFile
   = Inl \<lparr>Code = ''permission_denied'',
          Message = ''path escapes project root: out/new.txt'',
          Suggestions = [''Use a relative path under the project root (e.g., ''
                         @ [CHR 0x27] @ ''./subdir/file.txt'' @ [CHR 0x27] @ '')'']\<rparr>"
proof -
  let ?fs = "[(''ws'', Directory [(''out'', Symlink ''/outside'')]), (''outside'', Directory [])]"
  have h1: "EvalSymlinks ?fs (Root \<lparr>Root = ''/ws''\<rparr>) = Some (Root \<lparr>Root = ''/ws''\<rparr>)"
    by code_simp
  have h2: "TrimSpace ''out/new.txt'' \<noteq> []" by code_simp
  have h3: "candidateOf example_os \<lparr>Root = ''/ws''\<rparr> ''out/new.txt'' = Inr ''/ws/out/new.txt''"
    by code_simp
  have h4: "EvalSymlinks ?fs ''/ws/out/new.txt'' = None" by code_simp
  have h5: "EvalSymlinks ?fs (Dir ''/ws/out/new.txt'') = Some ''/outside''
            \<and> \<not> within (Root \<lparr>Root = ''/ws''\<rparr>) ''/outside''"
    by code_simp
  have "Resolve example_os ?fs \<lparr>Root = ''/ws''\<rparr> ''out/new.txt'' AccessWriteFile
        = Inl \<lparr>Code = ''permission_denied'',
               Message = ''path escapes project root: '' @ ''out/new.txt'',
               Suggestions = [''Use a relative path under the project root (e.g., ''
                              @ [CHR 0x27] @ ''./subdir/file.txt'' @ [CHR 0x27] @ '')'']\<rparr>"
    using new_file_checked_through_real_parent
            [OF h1 h2 h3 h4, where parentReal = "''/outside''", THEN conjunct1] h5
    by blast
  then show ?thesis by simp
qed

subsection \<open>Real paths\<close>

text \<open>
  For a read or a list request the path returned is canonical, lies inside the root and
  is real: it exists and no element of it is a symbolic link.
\<close>

lemma Resolve_read_list_real:
  assumes "canonical (Root s)" and "access \<noteq> AccessWriteFile"
    and "Resolve sys fs s userPath access = Inr real"
  shows "canonical real \<and> within (Root s) real \<and> realPath fs (elements real)"
proof -
  from assms(2) have acc: "access = AccessReadFile \<or> access = AccessListDir"
    by (cases access) auto
  from assms(3) obtain cand where "symlinkProtection sys fs userPath cand access = Inr real"
    by (auto simp: Resolve_unfold split: if_splits sum.splits)
  with acc have "EvalSymlinks fs cand = Some real"
    by (auto simp: symlinkProtection_def split: option.splits)
  then have "realPath fs (elements real)" by (rule EvalSymlinks_real)
  with Resolve_success[OF assms(1,3)] show ?thesis by simp
qed

text \<open>
  C1. The same does not hold of a write request. When the last element of the candidate
  is a symbolic link whose target does not exist, \<open>EvalSymlinks\<close> fails on the candidate as
  it does on a missing file, only the parent is resolved, and \<open>Resolve\<close> returns the path
  of the link itself: a path that is not real, here a link to \<open>/outside/evil.txt\<close>
  outside the root \<open>/ws\<close>.
\<close>

theorem write_through_dangling_link_accepted:
  "Resolve example_os
     [(''ws'', Directory [(''link'', Symlink ''/outside/evil.txt'')]), (''outside'', Directory [])]
     \<lparr>Root = ''/ws''\<rparr> ''link'' AccessWriteFile = Inr ''/ws/link''
   \<and> Lstat [(''ws'', Directory [(''link'', Symlink ''/outside/evil.txt'')]), (''outside'', Directory [])]
         (elements ''/ws/link'') = Some (Symlink ''/outside/evil.txt'')
   \<and> \<not> realPath
         [(''ws'', Directory [(''link'', Symlink ''/outside/evil.txt'')]), (''outside'', Directory [])]
         (elements ''/ws/link'')
   \<and> \<not> within ''/ws'' ''/outside/evil.txt''"
  by code_simp

subsection \<open>Suggestions of a rejection\<close>

text \<open>
  The suggestions of a \<open>not_found\<close> rejection are those of \<open>suggestFiles\<close> for the path
  that did not resolve: the candidate for a read or a list request, its directory for a
  write request. By \<open>suggestFiles_eq\<close> they are the hints for the ranked matches among the
  names that the glob over the directory of that path returns.
\<close>

lemma not_found_suggestions_target:
  assumes "candidateOf sys s userPath = Inr cand"
    and "Resolve sys fs s userPath access = Inl e"
    and "Code e = ''not_found''"
  shows "Suggestions e = suggestFiles sys fs (if access = AccessWriteFile then Dir cand else cand)"
proof -
  from assms(2) have nb: "TrimSpace userPath \<noteq> []"
    by (auto simp: Resolve_unfold split: if_splits) (use assms(3) in simp)
  from assms(1,2) nb obtain rejection where
    sp: "symlinkProtection sys fs userPath cand access = Inl rejection \<and> rejection = e
         \<or> (\<exists>real. symlinkProtection sys fs userPath cand access = Inr real
                \<and> Code e = ''permission_denied'')"
    by (auto simp: Resolve_unfold split: if_splits sum.splits)
  with assms(3) have "symlinkProtection sys fs userPath cand access = Inl e" by auto
  then show ?thesis
    by (cases access) (auto simp: symlinkProtection_def Let_def split: option.splits)
qed

lemma suggestions_example:
  "Resolve example_os
     [(''ws'', Directory [(''other'', Directory []), (''mydata'', File), (''a.txt'', File),
                          (''Notes.txt'', File), (''data.txt'', File)])]
     \<lparr>Root = ''/ws''\<rparr> ''Dat'' AccessReadFile
   = Inl \<lparr>Code = ''not_found'', Message = ''path not found: Dat'',
          Suggestions = [hint ''data.txt'', hint ''mydata'']\<rparr>"
  by code_simp

text \<open>
  C7. The glob pattern is built from the path as it is. For the missing path \<open>a*/x\<close> the
  pattern is \<open>/ws/a*/*\<close>, the glob returns the entries of the directories \<open>/ws/a1\<close> and
  \<open>/ws/a2\<close>, none of which is the directory of the missing path, and the prefix loop
  lists the name \<open>x\<close> twice.
\<close>

theorem suggestions_from_other_directories:
  "Resolve example_os
     [(''ws'', Directory [(''a1'', Directory [(''x'', File)]), (''a2'', Directory [(''x'', File)])])]
     \<lparr>Root = ''/ws''\<rparr> ''a*/x'' AccessReadFile
   = Inl \<lparr>Code = ''not_found'', Message = ''path not found: a*/x'',
          Suggestions = [hint ''x'', hint ''x'']\<rparr>"
  by code_simp

subsection \<open>Repeated calls\<close>

lemma walkSymlinks_sameFiles:
  "sameFiles fs fs' \<Longrightarrow> walkSymlinks fs n path dest = walkSymlinks fs' n path dest"
proof (induction fs n path dest rule: walkSymlinks.induct)
  case (1 fs n dest)
  show ?case by (simp add: walkSymlinks.simps)
next
  case (2 fs n e rest dest)
  have k: "map_option kind (Lstat fs (dest @ [e])) = map_option kind (Lstat fs' (dest @ [e]))"
    using "2.prems" by (simp add: sameFiles_def)
  show ?case
  proof (cases "e = [] \<or> e = ''.''")
    case True
    with "2.IH"(1) "2.prems" show ?thesis by (simp add: walkSymlinks.simps)
  next
    case skip: False
    show ?thesis
    proof (cases "e = ''..''")
      case True
      with skip "2.IH"(2) "2.prems" show ?thesis by (simp add: walkSymlinks.simps)
    next
      case False
      show ?thesis
      proof (cases "Lstat fs (dest @ [e])")
        case None
        with k have "Lstat fs' (dest @ [e]) = None" by simp
        with None skip False show ?thesis by (simp add: walkSymlinks.simps)
      next
        case (Some nd)
        with k obtain nd' where s': "Lstat fs' (dest @ [e]) = Some nd'" and kk: "kind nd = kind nd'"
          by (cases "Lstat fs' (dest @ [e])") auto
        show ?thesis
        proof (cases nd)
          case File
          with kk have "nd' = File" by (cases nd') (auto simp: kind_def)
          with File Some s' skip False show ?thesis by (simp add: walkSymlinks.simps)
        next
          case (Directory entries)
          with kk obtain entries' where "nd' = Directory entries'"
            by (cases nd') (auto simp: kind_def)
          with Directory Some s' skip False "2.IH"(3)[OF skip False Some Directory "2.prems"]
          show ?thesis by (simp add: walkSymlinks.simps)
        next
          case (Symlink link)
          with kk have n': "nd' = Symlink link" by (cases nd') (auto simp: kind_def)
          show ?thesis
          proof (cases "255 \<le> n")
            case True
            with Symlink n' Some s' skip False show ?thesis by (simp add: walkSymlinks.simps)
          next
            case lt: False
            with Symlink n' Some s' skip False "2.IH"(4)[OF skip False Some Symlink lt "2.prems"]
            show ?thesis by (simp add: walkSymlinks.simps)
          qed
        qed
      qed
    qed
  qed
qed

lemma EvalSymlinks_sameFiles:
  "sameFiles fs fs' \<Longrightarrow> EvalSymlinks fs path = EvalSymlinks fs' path"
  by (simp add: EvalSymlinks_def walkSymlinks_sameFiles)

text \<open>
  C8. \<open>Resolve\<close> changes nothing, and its outcome depends on the file system only through
  what \<open>Lstat\<close> answers: called on two file systems that give every path the same kind
  of node (and the same target for a link), as before and after a call that changed
  nothing, it returns the same path or a rejection with the same code; when the glob
  answers alike as well, the two results are equal with their suggestions.
\<close>

theorem Resolve_same_outcome:
  assumes "sameFiles fs fs'"
  shows "outcome (Resolve sys fs s userPath access) = outcome (Resolve sys fs' s userPath access)
         \<and> (os_Glob sys fs = os_Glob sys fs'
            \<longrightarrow> Resolve sys fs s userPath access = Resolve sys fs' s userPath access)"
proof -
  have ev: "EvalSymlinks fs = EvalSymlinks fs'"
    using assms by (auto simp: EvalSymlinks_sameFiles)
  have sp: "outcome (case symlinkProtection sys fs userPath cand access of
                       Inl rejection \<Rightarrow> Inl rejection | Inr real \<Rightarrow> k real)
            = outcome (case symlinkProtection sys fs' userPath cand access of
                       Inl rejection \<Rightarrow> Inl rejection | Inr real \<Rightarrow> k real)" for cand k
    unfolding symlinkProtection_def Let_def ev
    by (auto simp: outcome_def split: option.splits)
  have a: "outcome (Resolve sys fs s userPath access) = outcome (Resolve sys fs' s userPath access)"
    unfolding Resolve_unfold using sp by (auto split: sum.splits)
  have b: "Resolve sys fs s userPath access = Resolve sys fs' s userPath access"
    if "os_Glob sys fs = os_Glob sys fs'"
  proof -
    have sf: "suggestFiles sys fs = suggestFiles sys fs'"
      using that by (auto simp: suggestFiles_def)
    have "symlinkProtection sys fs userPath cand access
               = symlinkProtection sys fs' userPath cand access" for cand
      unfolding symlinkProtection_def Let_def ev sf by simp
    then show ?thesis by (simp add: Resolve_unfold split: sum.splits)
  qed
  from a b show ?thesis by blast
qed


theorem Resolve_same_outcome_witness:
  "outcome (Resolve example_os [(''ws'', Directory [(''a.txt'', File), (''b'', Directory [])])]
              \<lparr>Root = ''/ws''\<rparr> ''a.txt'' AccessReadFile) = Inr ''/ws/a.txt''
   \<and> outcome (Resolve example_os [(''ws'', Directory [(''b'', Directory []), (''a.txt'', File)])]
              \<lparr>Root = ''/ws''\<rparr> ''a.txt'' AccessReadFile) = Inr ''/ws/a.txt''
   \<and> outcome (Resolve example_os [(''ws'', Directory [(''a.txt'', File), (''b'', Directory [])])]
              \<lparr>Root = ''/ws''\<rparr> ''b/c'' AccessListDir) = Inl ''not_found''
   \<and> outcome (Resolve example_os [(''ws'', Directory [(''b'', Directory []), (''a.txt'', File)])]
              \<lparr>Root = ''/ws''\<rparr> ''b/c'' AccessListDir) = Inl ''not_found''"
proof -
  let ?fs = "[(''ws'', Directory [(''a.txt'', File), (''b'', Directory [])])]"
  let ?fs' = "[(''ws'', Directory [(''b'', Directory []), (''a.txt'', File)])]"
  have "map_option kind (lookup (Directory ?fs) p) = map_option kind (lookup (Directory ?fs') p)" for p
  proof (cases p)
    case Nil
    then show ?thesis by (simp add: kind_def)
  next
    case p1: (Cons x xs)
    show ?thesis
    proof (cases xs)
      case Nil
      with p1 show ?thesis by (simp add: kind_def)
    next
      case p2: (Cons y ys)
      show ?thesis
      proof (cases ys)
        case Nil
        with p1 p2 show ?thesis by (simp add: kind_def)
      next
        case (Cons z zs)
        with p1 p2 show ?thesis by simp
      qed
    qed
  qed
  then have same: "sameFiles ?fs ?fs'" by (simp add: sameFiles_def Lstat_def)
  have v1: "outcome (Resolve example_os ?fs \<lparr>Root = ''/ws''\<rparr> ''a.txt'' AccessReadFile) = Inr ''/ws/a.txt''"
    by code_simp
  have v2: "outcome (Resolve example_os ?fs \<lparr>Root = ''/ws''\<rparr> ''b/c'' AccessListDir) = Inl ''not_found''"
    by code_simp
  from Resolve_same_outcome[OF same, of example_os "\<lparr>Root = ''/ws''\<rparr>" "''a.txt''" AccessReadFile]
       Resolve_same_outcome[OF same, of example_os "\<lparr>Root = ''/ws''\<rparr>" "''b/c''" AccessListDir]
       v1 v2
  show ?thesis by (simp only:) 
qed

end
